theory Spec2Isabelle
  imports Main "HOL-Library.Word" "HOL-Library.Signed_Division"
begin

section \<open>Errors\<close>

text \<open>
  Go errors as values. \<open>Errno n\<close> is the \<open>syscall.Errno\<close> of value \<open>n\<close> (a \<open>uintptr\<close>, 64
  bits, so \<open>0 \<le> n < 2 ^ 64\<close>), \<open>ErrorString s\<close> is \<open>errors.New(s)\<close>, and \<open>WrapError s e\<close> is
  \<open>fmt.Errorf(s + ": %w", e)\<close>: the message prefix with the wrapped cause.
\<close>

datatype error = Errno int | ErrorString string | WrapError string error

text \<open>\<open>errors.Is\<close>: the target is the error itself or is found down its chain of causes.\<close>

fun errors_Is :: "error \<Rightarrow> error \<Rightarrow> bool" where
  "errors_Is (WrapError s e) target = (if WrapError s e = target then True else errors_Is e target)"
| "errors_Is e target = (e = target)"

definition EADDRNOTAVAIL :: error where
  "EADDRNOTAVAIL = Errno 99"

text \<open>
  The answer of a native call is a C \<open>int\<close>: 32 bits, signed, from \<open>- 2 ^ 31\<close> to
  \<open>2 ^ 31 - 1\<close>. The code turns a failing answer into \<open>syscall.Errno(-ret)\<close>.

  Where \<open>ret\<close> is still the \<open>C.int\<close> (\<open>Errno_of_C\<close>), the negation is taken in 32 bits: it
  wraps at \<open>- 2 ^ 31\<close>, which it leaves as it is, and the conversion to \<open>uintptr\<close> extends
  the sign, which gives \<open>2 ^ 64 - 2 ^ 31\<close>. The code reaches it only with a negative
  answer.

  Where \<open>ret\<close> has first been converted to \<open>int\<close>, 64 bits (\<open>Errno_of_int\<close>, in \<open>Open\<close> and
  \<open>SeekCursor\<close>), the negation does not wrap, and the code reaches it with every non-zero
  answer: the negation of a positive answer is negative and wraps in the conversion to
  \<open>uintptr\<close>.
\<close>

definition Errno_of_C :: "int \<Rightarrow> error" where
  "Errno_of_C r = Errno (if r = - 2147483648 then 18446744071562067968 else - r)"

definition Errno_of_int :: "int \<Rightarrow> error" where
  "Errno_of_int r = Errno (if r \<le> 0 then - r else 18446744073709551616 - r)"

section \<open>The native journal library\<close>

text \<open>
  The repository calls the C library of the journal through cgo. The library is outside
  the repository, so it is a parameter of every operation: \<open>sd_library\<close> answers a call
  from the history of all calls made so far (the call itself last). Nothing is assumed
  about its answers. The state threaded through the Go functions is that history.
\<close>

type_synonym handle = nat

datatype sd_call =
    sd_journal_open
  | sd_journal_close handle
  | sd_journal_next handle
  | sd_journal_previous handle
  | sd_journal_seek_tail handle
  | sd_journal_seek_cursor handle string
  | sd_journal_get_cursor handle
  | sd_journal_get_realtime_usec handle
  | sd_journal_get_monotonic_usec handle
  | sd_journal_restart_data handle
  | sd_journal_enumerate_data handle
  | sd_journal_wait handle "64 word"
  | sd_journal_add_match handle string
  | sd_journal_add_conjunction handle
  | sd_journal_add_disjunction handle
  | sd_journal_get_usage handle
  | sd_journal_sendv "string list"

record sd_result =
  ret :: int
  out_str :: string
  out_u64 :: "64 word"
  out_handle :: handle

type_synonym sd_library = "sd_call list \<Rightarrow> sd_result"

definition sd_invoke :: "sd_library \<Rightarrow> sd_call \<Rightarrow> sd_call list \<Rightarrow> sd_result \<times> sd_call list" where
  "sd_invoke L c tr = (L (tr @ [c]), tr @ [c])"

text \<open>A library that answers every call with 0 and empty outputs.\<close>

definition sd_quiet :: sd_library where
  "sd_quiet = (\<lambda>tr. \<lparr>ret = 0, out_str = [], out_u64 = 0, out_handle = 0\<rparr>)"

section \<open>Match expressions\<close>

datatype matchOp = matchOpField | matchOpAnd | matchOpOr

record matchExpr =
  op :: matchOp
  field :: string
  values_of :: "string list"

record Match =
  expr :: "matchExpr list"

section \<open>The journal connection\<close>

datatype WakeupEvent = NoOperation | Append | Invalidate

record Journal =
  sdJournal :: handle
  matches :: "Match list"

text \<open>
  \<open>Wait\<close>: the timeout is a \<open>time.Duration\<close>, a signed 64-bit count of nanoseconds.
  Only the value \<open>-1\<close> selects \<open>math.MaxUint64\<close>; every other value is divided by
  \<open>time.Microsecond\<close> (1000) with Go's truncating division and converted to \<open>uint64\<close>.
\<close>

definition Wait_native_timeout :: "64 word \<Rightarrow> 64 word" where
  "Wait_native_timeout timeout =
     (if timeout = - 1 then - 1 else word_of_int (sint timeout sdiv 1000))"

definition wakeup_of_ret :: "int \<Rightarrow> WakeupEvent" where
  "wakeup_of_ret r = (if r = 0 then NoOperation else if r = 1 then Append
                      else if r = 2 then Invalidate else NoOperation)"

definition Wait :: "sd_library \<Rightarrow> Journal \<Rightarrow> 64 word \<Rightarrow> sd_call list
                      \<Rightarrow> (error + WakeupEvent) \<times> sd_call list" where
  "Wait L j timeout tr =
     (let t = Wait_native_timeout timeout;
          (r, tr') = sd_invoke L (sd_journal_wait (sdJournal j) t) tr
      in if ret r < 0
         then (Inl (WrapError ''failed to wait for journal change'' (Errno_of_C (ret r))), tr')
         else (Inr (wakeup_of_ret (ret r)), tr'))"

text \<open>\<open>Open\<close>: any non-zero answer of the native open is an error.\<close>

definition Open :: "sd_library \<Rightarrow> sd_call list \<Rightarrow> (error + Journal) \<times> sd_call list" where
  "Open L tr =
     (let (r, tr') = sd_invoke L sd_journal_open tr
      in if ret r \<noteq> 0
         then (Inl (WrapError ''failed to open journal'' (Errno_of_int (ret r))), tr')
         else (Inr \<lparr>sdJournal = out_handle r, matches = []\<rparr>, tr'))"

text \<open>
  \<open>Close\<close> returns nothing and leaves the \<open>Journal\<close> value as it is: the handle field
  is not cleared and no flag is kept.
\<close>

definition Close :: "sd_library \<Rightarrow> Journal \<Rightarrow> sd_call list \<Rightarrow> sd_call list" where
  "Close L j tr = snd (sd_invoke L (sd_journal_close (sdJournal j)) tr)"

definition Next :: "sd_library \<Rightarrow> Journal \<Rightarrow> sd_call list \<Rightarrow> (error + int) \<times> sd_call list" where
  "Next L j tr =
     (let (r, tr') = sd_invoke L (sd_journal_next (sdJournal j)) tr
      in if ret r < 0
         then (Inl (WrapError ''failed to move to next entry'' (Errno_of_C (ret r))), tr')
         else (Inr (ret r), tr'))"

definition Previous :: "sd_library \<Rightarrow> Journal \<Rightarrow> sd_call list \<Rightarrow> (error + int) \<times> sd_call list" where
  "Previous L j tr =
     (let (r, tr') = sd_invoke L (sd_journal_previous (sdJournal j)) tr
      in if ret r < 0
         then (Inl (WrapError ''failed to move to prevoius entry'' (Errno_of_C (ret r))), tr')
         else (Inr (ret r), tr'))"

definition SeekTail :: "sd_library \<Rightarrow> Journal \<Rightarrow> sd_call list \<Rightarrow> error option \<times> sd_call list" where
  "SeekTail L j tr =
     (let (r, tr') = sd_invoke L (sd_journal_seek_tail (sdJournal j)) tr
      in if ret r < 0
         then (Some (WrapError ''failed seek tail'' (Errno_of_C (ret r))), tr')
         else (None, tr'))"

text \<open>
  \<open>C.CString\<close> copies the text and ends it with a NUL byte; a native function that takes
  the copy as a C string reads it up to the first NUL byte.
\<close>

definition CString :: "string \<Rightarrow> string" where
  "CString s = takeWhile (\<lambda>c. c \<noteq> CHR 0x00) s"

text \<open>\<open>SeekCursor\<close> returns the bare errno, and on any non-zero answer.\<close>

definition SeekCursor :: "sd_library \<Rightarrow> Journal \<Rightarrow> string \<Rightarrow> sd_call list
                            \<Rightarrow> error option \<times> sd_call list" where
  "SeekCursor L j cursor tr =
     (let (r, tr') = sd_invoke L (sd_journal_seek_cursor (sdJournal j) (CString cursor)) tr
      in if ret r \<noteq> 0 then (Some (Errno_of_int (ret r)), tr') else (None, tr'))"

definition Cursor :: "sd_library \<Rightarrow> Journal \<Rightarrow> sd_call list \<Rightarrow> (error + string) \<times> sd_call list" where
  "Cursor L j tr =
     (let (r, tr') = sd_invoke L (sd_journal_get_cursor (sdJournal j)) tr
      in if ret r < 0
         then (Inl (WrapError ''failed to read cursor'' (Errno_of_C (ret r))), tr')
         else (Inr (out_str r), tr'))"


subsection \<open>AddMatch\<close>

text \<open>
  A field node pushes one native match per value; the answer kept for the error test is
  the one of the last value (0 when the node has no value). The markers push a
  conjunction or a disjunction.
\<close>

fun add_values :: "sd_library \<Rightarrow> handle \<Rightarrow> string \<Rightarrow> string list \<Rightarrow> int \<Rightarrow> sd_call list
                     \<Rightarrow> int \<times> sd_call list" where
  "add_values L h f [] r tr = (r, tr)"
| "add_values L h f (v # vs) r tr =
     (let (res, tr') = sd_invoke L (sd_journal_add_match h (f @ ''='' @ v)) tr
      in add_values L h f vs (ret res) tr')"

definition add_expr :: "sd_library \<Rightarrow> handle \<Rightarrow> matchExpr \<Rightarrow> sd_call list \<Rightarrow> int \<times> sd_call list" where
  "add_expr L h e tr =
     (case op e of
        matchOpField \<Rightarrow> add_values L h (field e) (values_of e) 0 tr
      | matchOpAnd \<Rightarrow>
          (let (res, tr') = sd_invoke L (sd_journal_add_conjunction h) tr in (ret res, tr'))
      | matchOpOr \<Rightarrow>
          (let (res, tr') = sd_invoke L (sd_journal_add_disjunction h) tr in (ret res, tr')))"

fun add_exprs :: "sd_library \<Rightarrow> handle \<Rightarrow> matchExpr list \<Rightarrow> sd_call list
                    \<Rightarrow> error option \<times> sd_call list" where
  "add_exprs L h [] tr = (None, tr)"
| "add_exprs L h (e # es) tr =
     (let (r, tr') = add_expr L h e tr
      in if r < 0 then (Some (WrapError ''failed to add match'' (Errno_of_C r)), tr')
         else add_exprs L h es tr')"

text \<open>The argument is a pointer to a \<open>Match\<close>: \<open>None\<close> is the nil pointer.\<close>

definition AddMatch :: "sd_library \<Rightarrow> Journal \<Rightarrow> Match option \<Rightarrow> sd_call list
                          \<Rightarrow> error option \<times> Journal \<times> sd_call list" where
  "AddMatch L j m tr =
     (case m of
        None \<Rightarrow> (Some (ErrorString ''no match expression to add''), j, tr)
      | Some mm \<Rightarrow>
          if expr mm = [] then (Some (ErrorString ''no match expression to add''), j, tr)
          else (case add_exprs L (sdJournal j) (expr mm) tr of
                  (Some e, tr') \<Rightarrow> (Some e, j, tr')
                | (None, tr') \<Rightarrow> (None, j\<lparr>matches := matches j @ [mm]\<rparr>, tr')))"

text \<open>
  What the claim calls compiling the nodes in declaration order: the native calls of one
  node, and of a node list, one node after the other.
\<close>

definition node_calls :: "handle \<Rightarrow> matchExpr \<Rightarrow> sd_call list" where
  "node_calls h e =
     (case op e of
        matchOpField \<Rightarrow> map (\<lambda>v. sd_journal_add_match h (field e @ ''='' @ v)) (values_of e)
      | matchOpAnd \<Rightarrow> [sd_journal_add_conjunction h]
      | matchOpOr \<Rightarrow> [sd_journal_add_disjunction h])"

definition filter_calls :: "handle \<Rightarrow> matchExpr list \<Rightarrow> sd_call list" where
  "filter_calls h es = concat (map (node_calls h) es)"

subsection \<open>ReadEntry\<close>

type_synonym Fields = "string \<rightharpoonup> string"

text \<open>
  \<open>Timestamp\<close> is the instant as signed 64-bit nanoseconds since the epoch (the argument
  given to \<open>time.Unix(0, _)\<close>), \<open>Elapsed\<close> a \<open>time.Duration\<close>. The field \<open>Cursor\<close> of
  the Go struct is \<open>Cursor_f\<close> here, \<open>Cursor\<close> being the operation of the connection.
\<close>

record Entry =
  Fields :: Fields
  Cursor_f :: string
  Timestamp :: "64 word"
  Elapsed :: "64 word"

text \<open>
  \<open>strings.SplitN(msg, "=", 2)\<close>: the text before the first \<open>=\<close> and the text after it;
  \<open>None\<close> when there is no \<open>=\<close> (fewer than two pieces).
\<close>

definition SplitN2 :: "string \<Rightarrow> (string \<times> string) option" where
  "SplitN2 msg =
     (if CHR ''='' \<in> set msg
      then Some (takeWhile (\<lambda>c. c \<noteq> CHR ''='') msg, tl (dropWhile (\<lambda>c. c \<noteq> CHR ''='') msg))
      else None)"

text \<open>
  The enumeration loop has no bound of its own: it runs until the library answers 0 or
  an error. The fuel counts its iterations; \<open>None\<close> is a loop still running when the
  fuel is spent.
\<close>

fun enumerate_fields :: "nat \<Rightarrow> sd_library \<Rightarrow> handle \<Rightarrow> Fields \<Rightarrow> sd_call list
                           \<Rightarrow> (error + Fields) option \<times> sd_call list" where
  "enumerate_fields 0 L h fs tr = (None, tr)"
| "enumerate_fields (Suc n) L h fs tr =
     (let (r, tr') = sd_invoke L (sd_journal_enumerate_data h) tr
      in if ret r = 0 then (Some (Inr fs), tr')
         else if ret r < 0
         then (Some (Inl (WrapError ''failed to read message field'' (Errno_of_C (ret r)))), tr')
         else (case SplitN2 (out_str r) of
                 None \<Rightarrow> (Some (Inl (ErrorString ''failed to parse field'')), tr')
               | Some (k, v) \<Rightarrow> enumerate_fields n L h (fs(k \<mapsto> v)) tr'))"

definition ReadEntry :: "nat \<Rightarrow> sd_library \<Rightarrow> Journal \<Rightarrow> sd_call list
                           \<Rightarrow> (error + Entry) option \<times> sd_call list" where
  "ReadEntry fuel L j tr =
     (let h = sdJournal j;
          (r1, tr1) = sd_invoke L (sd_journal_get_realtime_usec h) tr
      in if ret r1 < 0
         then (Some (Inl (WrapError ''failed to get realtime timestamp'' (Errno_of_C (ret r1)))), tr1)
         else
          (let (r2, tr2) = sd_invoke L (sd_journal_get_monotonic_usec h) tr1
           in if ret r2 < 0
              then (Some (Inl (WrapError ''failed to get monotonic timestamp''
                                 (Errno_of_C (ret r2)))), tr2)
              else
               (let (r3, tr3) = sd_invoke L (sd_journal_get_cursor h) tr2
                in if ret r3 < 0
                   then (Some (Inl (WrapError ''failed to read cursor'' (Errno_of_C (ret r3)))), tr3)
                   else
                    (let (r4, tr4) = sd_invoke L (sd_journal_restart_data h) tr3
                     in case enumerate_fields fuel L h Map.empty tr4 of
                          (None, tr5) \<Rightarrow> (None, tr5)
                        | (Some (Inl e), tr5) \<Rightarrow> (Some (Inl e), tr5)
                        | (Some (Inr fs), tr5) \<Rightarrow>
                            (Some (Inr \<lparr>Fields = fs, Cursor_f = out_str r3,
                                        Timestamp = out_u64 r1 * 1000,
                                        Elapsed = out_u64 r2\<rparr>), tr5)))))"

section \<open>Follow\<close>

text \<open>
  A function value is nil or a function. \<open>reflect.ValueOf(h).IsNil()\<close> on a value of a
  function type reports whether it is nil.
\<close>

datatype func = FuncVal nat

type_synonym FollowHandler = "func option"

definition reflect_IsNil :: "FollowHandler \<Rightarrow> bool" where
  "reflect_IsNil h = (h = None)"

text \<open>
  The stop function closes over a \<open>sync.Once\<close> and the channel \<open>done\<close>, of capacity 1.
  A send on a full channel blocks (\<open>None\<close>); the worker's \<open>select\<close> with a \<open>default\<close>
  receives without blocking.
\<close>

record stop_state =
  once_done :: bool
  done_chan :: "bool list"

definition new_stop :: stop_state where
  "new_stop = \<lparr>once_done = False, done_chan = []\<rparr>"

definition chan_send :: "nat \<Rightarrow> 'a \<Rightarrow> 'a list \<Rightarrow> 'a list option" where
  "chan_send cap v buf = (if length buf < cap then Some (buf @ [v]) else None)"

definition chan_try_recv :: "'a list \<Rightarrow> 'a option \<times> 'a list" where
  "chan_try_recv buf = (case buf of [] \<Rightarrow> (None, []) | v # rest \<Rightarrow> (Some v, rest))"

definition FollowStop :: "stop_state \<Rightarrow> stop_state option" where
  "FollowStop s =
     (if once_done s then Some s
      else (case chan_send 1 True (done_chan s) of
              None \<Rightarrow> None
            | Some buf \<Rightarrow> Some (s\<lparr>once_done := True, done_chan := buf\<rparr>)))"

record worker_args =
  w_handler :: FollowHandler
  w_cursor :: string
  w_matches :: "Match list"
  w_eof :: bool

text \<open>
  What a successful \<open>Follow\<close> leaves behind: the goroutine it started, with its
  arguments, and the state of the stop function it returned.
\<close>

record follow_session =
  goroutine :: worker_args
  stop_fn :: stop_state

definition spawn :: "FollowHandler \<Rightarrow> string \<Rightarrow> Match list \<Rightarrow> bool \<Rightarrow> follow_session" where
  "spawn h cursor ms eof =
     \<lparr>goroutine = \<lparr>w_handler = h, w_cursor = cursor, w_matches = ms, w_eof = eof\<rparr>,
      stop_fn = new_stop\<rparr>"

text \<open>
  \<open>Follow\<close>. When the first \<open>Cursor\<close> call fails, the variable \<open>cursor\<close> holds the empty
  string that \<open>Cursor\<close> returns with its error. An error is returned only from inside the
  branch for \<open>EADDRNOTAVAIL\<close>; after the outer test the function goes on to start the
  goroutine.
\<close>

definition Follow :: "sd_library \<Rightarrow> Journal \<Rightarrow> FollowHandler \<Rightarrow> sd_call list
                        \<Rightarrow> (error + follow_session) \<times> sd_call list" where
  "Follow L j h tr =
     (if h \<noteq> None \<and> reflect_IsNil h
      then (Inl (ErrorString ''a follow handler must be provided''), tr)
      else
       (case Cursor L j tr of
          (Inr cursor, tr1) \<Rightarrow> (Inr (spawn h cursor (matches j) False), tr1)
        | (Inl err, tr1) \<Rightarrow>
            if errors_Is err EADDRNOTAVAIL
            then (case SeekTail L j tr1 of
                    (Some e, tr2) \<Rightarrow> (Inl e, tr2)
                  | (None, tr2) \<Rightarrow>
                      (case Previous L j tr2 of
                         (Inl e, tr3) \<Rightarrow> (Inl e, tr3)
                       | (Inr moved, tr3) \<Rightarrow>
                           (case Cursor L j tr3 of
                              (Inl e, tr4) \<Rightarrow> (Inl e, tr4)
                            | (Inr cursor, tr4) \<Rightarrow>
                                (Inr (spawn h cursor (matches j) True), tr4))))
            else (Inr (spawn h [] (matches j) False), tr1)))"

subsection \<open>The worker\<close>

text \<open>
  The sentinel handed to the handler when following is stopped. Its declaration is not
  among the listed sources (the sibling \<open>ErrTailStopped\<close> is
  \<open>errors.New("journal: tail stopped")\<close>); only its identity matters below.
\<close>

definition ErrFollowStopped :: error where
  "ErrFollowStopped = ErrorString ''journal: follow stopped''"

text \<open>\<open>waitTimeout\<close>: 300 milliseconds, in nanoseconds.\<close>

definition waitTimeout :: "64 word" where
  "waitTimeout = 300000000"

type_synonym delivery = "Entry option \<times> error option"

text \<open>
  The worker's state: the history of native calls, the state it shares with the stop
  function, the calls of the handler so far, and the schedule of the owner: how many
  times the owner calls the stop function before each of the worker's looks at \<open>done\<close>
  (0 when the list is used up).
\<close>

record worker_state =
  trace :: "sd_call list"
  shared :: stop_state
  sched :: "nat list"
  delivered :: "delivery list"

datatype status = Returned | Panicked | OutOfFuel

text \<open>One call of the stop function by the owner; a blocked call changes nothing.\<close>

definition owner_stop :: "stop_state \<Rightarrow> stop_state" where
  "owner_stop s = (case FollowStop s of None \<Rightarrow> s | Some s' \<Rightarrow> s')"

text \<open>
  \<open>select { case <-done: ... default: }\<close>, after the owner's calls scheduled before
  it: whether a value was received, and the state after.
\<close>

definition select_done :: "worker_state \<Rightarrow> bool \<times> worker_state" where
  "select_done w =
     (let n = (case sched w of [] \<Rightarrow> 0 | k # ks \<Rightarrow> k);
          s = (owner_stop ^^ n) (shared w);
          (v, buf) = chan_try_recv (done_chan s)
      in (v \<noteq> None, w\<lparr>shared := s\<lparr>done_chan := buf\<rparr>, sched := tl (sched w)\<rparr>))"

text \<open>
  A call \<open>h(e, err)\<close>: calling a nil function panics (\<open>None\<close>). \<open>deliver_exit\<close> is
  such a call followed by leaving the function.
\<close>

definition call_handler :: "FollowHandler \<Rightarrow> delivery \<Rightarrow> worker_state \<Rightarrow> worker_state option" where
  "call_handler h d w =
     (case h of None \<Rightarrow> None | Some f \<Rightarrow> Some (w\<lparr>delivered := delivered w @ [d]\<rparr>))"

definition deliver_exit :: "FollowHandler \<Rightarrow> delivery \<Rightarrow> worker_state \<Rightarrow> status \<times> worker_state" where
  "deliver_exit h d w =
     (case call_handler h d w of None \<Rightarrow> (Panicked, w) | Some w' \<Rightarrow> (Returned, w'))"

text \<open>
  The loop labelled \<open>exit\<close> (\<open>follow_loop\<close>) and the inner loop that waits
  (\<open>follow_wait\<close>). Neither is bounded: the fuel counts iterations of both, and is
  also the fuel of each \<open>ReadEntry\<close>.
\<close>

fun follow_loop :: "nat \<Rightarrow> sd_library \<Rightarrow> Journal \<Rightarrow> FollowHandler \<Rightarrow> worker_state
                      \<Rightarrow> status \<times> worker_state"
  and follow_wait :: "nat \<Rightarrow> sd_library \<Rightarrow> Journal \<Rightarrow> FollowHandler \<Rightarrow> worker_state
                      \<Rightarrow> status \<times> worker_state" where
  "follow_loop 0 L jour h w = (OutOfFuel, w)"
| "follow_loop (Suc n) L jour h w =
     (case Next L jour (trace w) of
        (Inl err, tr1) \<Rightarrow>
          deliver_exit h (None, Some (WrapError ''failed to move cursor to next entry'' err))
            (w\<lparr>trace := tr1\<rparr>)
      | (Inr r, tr1) \<Rightarrow>
          if r = 0 then follow_wait n L jour h (w\<lparr>trace := tr1\<rparr>)
          else
           (case select_done (w\<lparr>trace := tr1\<rparr>) of
              (True, w1) \<Rightarrow> deliver_exit h (None, Some ErrFollowStopped) w1
            | (False, w1) \<Rightarrow>
                (case ReadEntry n L jour (trace w1) of
                   (None, tr2) \<Rightarrow> (OutOfFuel, w1\<lparr>trace := tr2\<rparr>)
                 | (Some (Inl err), tr2) \<Rightarrow>
                     deliver_exit h (None, Some (WrapError ''failed to read entry'' err))
                       (w1\<lparr>trace := tr2\<rparr>)
                 | (Some (Inr e), tr2) \<Rightarrow>
                     (case call_handler h (Some e, None) (w1\<lparr>trace := tr2\<rparr>) of
                        None \<Rightarrow> (Panicked, w1\<lparr>trace := tr2\<rparr>)
                      | Some w2 \<Rightarrow> follow_loop n L jour h w2))))"
| "follow_wait 0 L jour h w = (OutOfFuel, w)"
| "follow_wait (Suc n) L jour h w =
     (case select_done w of
        (True, w1) \<Rightarrow> deliver_exit h (None, Some ErrFollowStopped) w1
      | (False, w1) \<Rightarrow>
          (case Wait L jour waitTimeout (trace w1) of
             (Inl err, tr1) \<Rightarrow>
               deliver_exit h (None, Some (WrapError ''failed to wait for new entries'' err))
                 (w1\<lparr>trace := tr1\<rparr>)
           | (Inr wue, tr1) \<Rightarrow>
               if wue = NoOperation then follow_wait n L jour h (w1\<lparr>trace := tr1\<rparr>)
               else follow_loop n L jour h (w1\<lparr>trace := tr1\<rparr>)))"

text \<open>The parent's matches, replayed in their order; the first failure ends it.\<close>

fun add_matches :: "sd_library \<Rightarrow> Journal \<Rightarrow> Match list \<Rightarrow> sd_call list
                      \<Rightarrow> error option \<times> Journal \<times> sd_call list" where
  "add_matches L j [] tr = (None, j, tr)"
| "add_matches L j (m # ms) tr =
     (case AddMatch L j (Some m) tr of
        (Some e, j', tr') \<Rightarrow> (Some (WrapError ''failed to add match'' e), j', tr')
      | (None, j', tr') \<Rightarrow> add_matches L j' ms tr')"

text \<open>\<open>defer jour.Close()\<close>: runs when the function returns or panics.\<close>

definition deferred_Close :: "sd_library \<Rightarrow> Journal \<Rightarrow> status \<times> worker_state
                                \<Rightarrow> status \<times> worker_state" where
  "deferred_Close L jour res =
     (case res of
        (OutOfFuel, w) \<Rightarrow> (OutOfFuel, w)
      | (st, w) \<Rightarrow> (st, w\<lparr>trace := Close L jour (trace w)\<rparr>))"

definition followJournal :: "nat \<Rightarrow> sd_library \<Rightarrow> FollowHandler \<Rightarrow> string \<Rightarrow> Match list \<Rightarrow> bool
                               \<Rightarrow> worker_state \<Rightarrow> status \<times> worker_state" where
  "followJournal fuel L h cursor ms eof w =
     (case Open L (trace w) of
        (Inl err, tr1) \<Rightarrow> deliver_exit h (None, Some err) (w\<lparr>trace := tr1\<rparr>)
      | (Inr jour0, tr1) \<Rightarrow>
          deferred_Close L jour0
           (case add_matches L jour0 ms tr1 of
              (Some e, jour, tr2) \<Rightarrow> deliver_exit h (None, Some e) (w\<lparr>trace := tr2\<rparr>)
            | (None, jour, tr2) \<Rightarrow>
                (case SeekCursor L jour cursor tr2 of
                   (Some e, tr3) \<Rightarrow>
                     deliver_exit h (None, Some (WrapError ''failed to seek to cursor'' e))
                       (w\<lparr>trace := tr3\<rparr>)
                 | (None, tr3) \<Rightarrow>
                     if eof
                     then (case Next L jour tr3 of
                             (Inl e, tr4) \<Rightarrow>
                               deliver_exit h
                                 (None, Some (WrapError ''failed move cursor to next position'' e))
                                 (w\<lparr>trace := tr4\<rparr>)
                           | (Inr moved, tr4) \<Rightarrow> follow_loop fuel L jour h (w\<lparr>trace := tr4\<rparr>))
                     else follow_loop fuel L jour h (w\<lparr>trace := tr3\<rparr>))))"

section \<open>Submitting entries\<close>

definition FieldMessage :: string where
  "FieldMessage = ''MESSAGE''"

definition FieldPriority :: string where
  "FieldPriority = ''PRIORITY''"

text \<open>\<open>strconv.Itoa\<close>: the decimal text of an integer.\<close>

fun nat_digits :: "nat \<Rightarrow> string" where
  "nat_digits n =
     (if n < 10 then [char_of (48 + n)]
      else nat_digits (n div 10) @ [char_of (48 + n mod 10)])"

definition Itoa :: "int \<Rightarrow> string" where
  "Itoa i = (if i < 0 then CHR ''-'' # nat_digits (nat (- i)) else nat_digits (nat i))"

text \<open>
  The field map after the first lines of \<open>SubmitWithFields\<close>: a nil map is replaced by an
  empty one, and the priority and the message are stored only under keys that are not
  present yet.
\<close>

definition with_defaults :: "int \<Rightarrow> string \<Rightarrow> Fields option \<Rightarrow> Fields" where
  "with_defaults p m f =
     (let f0 = (case f of None \<Rightarrow> Map.empty | Some g \<Rightarrow> g);
          f1 = (case f0 FieldPriority of None \<Rightarrow> f0(FieldPriority \<mapsto> Itoa p) | Some v \<Rightarrow> f0)
      in (case f1 FieldMessage of None \<Rightarrow> f1(FieldMessage \<mapsto> m) | Some v \<Rightarrow> f1))"

text \<open>
  The two stores go into the map that the caller passed, unless it was nil: a Go map is a
  reference. \<open>caller_map_after p m f\<close> is the caller's map once \<open>SubmitWithFields\<close> has
  returned, with or without an error.
\<close>

definition caller_map_after :: "int \<Rightarrow> string \<Rightarrow> Fields option \<Rightarrow> Fields option" where
  "caller_map_after p m f = (case f of None \<Rightarrow> None | Some g \<Rightarrow> Some (with_defaults p m f))"

text \<open>
  The loop over the map, on the sequence of pairs in the order the iteration visits
  them. \<open>up\<close> is \<open>strings.ToUpper\<close>, of the Go library. The first bad name ends the
  function; nothing has been sent at that point.
\<close>

fun build_iov :: "(string \<Rightarrow> string) \<Rightarrow> (string \<times> string) list \<Rightarrow> string list
                    \<Rightarrow> error + string list" where
  "build_iov up [] iov = Inr iov"
| "build_iov up ((k, v) # kvs) iov =
     (if k = [] then Inl (ErrorString ''Field name must not be empty'')
      else if hd k = CHR ''_''
      then Inl (ErrorString (''Field name must not begin with the character ''
                              @ [CHR 0x27, CHR ''_'', CHR 0x27]))
      else (let fnv = up k
            in if fnv \<noteq> k then Inl (ErrorString ''Field name must be upper-case'')
               else build_iov up kvs (iov @ [fnv @ ''='' @ v])))"


definition SubmitWithFields :: "(string \<Rightarrow> string) \<Rightarrow> (Fields \<Rightarrow> (string \<times> string) list)
                                  \<Rightarrow> sd_library \<Rightarrow> int \<Rightarrow> string \<Rightarrow> Fields option
                                  \<Rightarrow> sd_call list \<Rightarrow> error option \<times> sd_call list" where
  "SubmitWithFields up rng L p m f tr =
     (case build_iov up (rng (with_defaults p m f)) [] of
        Inl e \<Rightarrow> (Some e, tr)
      | Inr iov \<Rightarrow>
          (let (r, tr') = sd_invoke L (sd_journal_sendv iov) tr
           in if ret r < 0
              then (Some (WrapError ''failed to get send entry to journal'' (Errno_of_C (ret r))), tr')
              else (None, tr')))"

definition Submit :: "(string \<Rightarrow> string) \<Rightarrow> (Fields \<Rightarrow> (string \<times> string) list)
                        \<Rightarrow> sd_library \<Rightarrow> int \<Rightarrow> string
                        \<Rightarrow> sd_call list \<Rightarrow> error option \<times> sd_call list" where
  "Submit up rng L p m tr = SubmitWithFields up rng L p m (Some Map.empty) tr"



section \<open>Reading the answers of the library\<close>

text \<open>
  The answer to the \<open>i\<close>-th enumeration call made from history \<open>tr\<close>, the data of the first
  \<open>k\<close> answers, and the field map they spell: each datum is split at its first \<open>=\<close> and
  stored under its name, a later datum replacing an earlier one of the same name.
\<close>

definition enum_answer :: "sd_library \<Rightarrow> handle \<Rightarrow> sd_call list \<Rightarrow> nat \<Rightarrow> sd_result" where
  "enum_answer L h tr i = L (tr @ replicate (Suc i) (sd_journal_enumerate_data h))"

definition put_field :: "string \<Rightarrow> Fields \<Rightarrow> Fields" where
  "put_field d fs = (case SplitN2 d of None \<Rightarrow> fs | Some (k, v) \<Rightarrow> fs(k \<mapsto> v))"

definition enum_data :: "sd_library \<Rightarrow> handle \<Rightarrow> sd_call list \<Rightarrow> nat \<Rightarrow> string list" where
  "enum_data L h tr k = map (\<lambda>i. out_str (enum_answer L h tr i)) [0..<k]"

definition fields_of :: "string list \<Rightarrow> Fields" where
  "fields_of ds = fold put_field ds Map.empty"

text \<open>
  A count of microseconds as a \<open>time.Duration\<close>, whose unit is the nanosecond: the count
  times \<open>time.Microsecond\<close> (1000), in 64 bits.
\<close>

definition usec_Duration :: "64 word \<Rightarrow> 64 word" where
  "usec_Duration u = u * 1000"


text \<open>
  The answer that \<open>AddMatch\<close> tests after node \<open>e\<close>, reached with the history \<open>tr\<close>: the
  answer to the last native call of the node, or 0 when the node makes no call (a field
  node without values).
\<close>

definition node_ret :: "sd_library \<Rightarrow> handle \<Rightarrow> matchExpr \<Rightarrow> sd_call list \<Rightarrow> int" where
  "node_ret L h e tr = (if node_calls h e = [] then 0 else ret (L (tr @ node_calls h e)))"

text \<open>The answer tested after node \<open>k\<close> of the list \<open>es\<close>, compiled from the history \<open>tr\<close>.\<close>

definition tested :: "sd_library \<Rightarrow> handle \<Rightarrow> matchExpr list \<Rightarrow> sd_call list \<Rightarrow> nat \<Rightarrow> int" where
  "tested L h es tr k = node_ret L h (es ! k) (tr @ filter_calls h (take k es))"

text \<open>
  \<open>AddMatch\<close> returns what the library answers: no error, with the match retained, when
  every tested answer is non-negative; the error of the first node whose tested answer is
  negative, with the nodes after it not compiled and the match not retained.
\<close>

definition AddMatch_follows_answers :: "sd_library \<Rightarrow> Journal \<Rightarrow> Match \<Rightarrow> sd_call list \<Rightarrow> bool" where
  "AddMatch_follows_answers L j m tr =
     (let h = sdJournal j; es = expr m
      in (es = [] \<longrightarrow>
            AddMatch L j (Some m) tr = (Some (ErrorString ''no match expression to add''), j, tr)) \<and>
         (es \<noteq> [] \<and> (\<forall>k<length es. 0 \<le> tested L h es tr k) \<longrightarrow>
            AddMatch L j (Some m) tr
              = (None, j\<lparr>matches := matches j @ [m]\<rparr>, tr @ filter_calls h es)) \<and>
         (\<forall>i<length es. (\<forall>k<i. 0 \<le> tested L h es tr k) \<and> tested L h es tr i < 0 \<longrightarrow>
            AddMatch L j (Some m) tr
              = (Some (WrapError ''failed to add match'' (Errno_of_C (tested L h es tr i))), j,
                 tr @ filter_calls h (take (Suc i) es))))"

section \<open>Concrete inputs\<close>

text \<open>
  A connection, a match (units sshd or gdm, or an empty message), and two libraries:
  one whose cursor read fails with a given errno, and one positioned at an entry with two
  fields, \<open>MESSAGE=a=b\<close> and \<open>PRIORITY=6\<close>.
\<close>

definition J7 :: Journal where "J7 = \<lparr>sdJournal = 7, matches = []\<rparr>"


text \<open>
  A match on two units, and a library that answers its \<open>k\<close>-th call with the \<open>k\<close>-th
  number of a list, and with 0 past the end of the list; its outputs are empty.
\<close>

definition two_units :: Match where
  "two_units =
     \<lparr>expr = [\<lparr>op = matchOpField, field = ''_SYSTEMD_UNIT'',
               values_of = [''sshd.service'', ''gdm.service'']\<rparr>]\<rparr>"

definition sd_script :: "int list \<Rightarrow> sd_library" where
  "sd_script rs =
     (\<lambda>tr. \<lparr>ret = (if 0 < length tr \<and> length tr \<le> length rs then rs ! (length tr - 1) else 0),
            out_str = [], out_u64 = 0, out_handle = 0\<rparr>)"

definition last_call :: "sd_call list \<Rightarrow> sd_call option" where
  "last_call tr = (case rev tr of [] \<Rightarrow> None | c # cs \<Rightarrow> Some c)"

definition sd_cursor_fails :: "int \<Rightarrow> sd_library" where
  "sd_cursor_fails e =
     (\<lambda>tr. \<lparr>ret = (case last_call tr of Some (sd_journal_get_cursor h) \<Rightarrow> - e | _ \<Rightarrow> 0),
            out_str = [], out_u64 = 0, out_handle = 0\<rparr>)"

definition enum_count :: "sd_call list \<Rightarrow> nat" where
  "enum_count tr = length (takeWhile (\<lambda>c. case c of sd_journal_enumerate_data h \<Rightarrow> True | _ \<Rightarrow> False) (rev tr))"

definition sd_answer :: "int \<Rightarrow> string \<Rightarrow> 64 word \<Rightarrow> sd_result" where
  "sd_answer r s u = \<lparr>ret = r, out_str = s, out_u64 = u, out_handle = 3\<rparr>"

definition sd_one_entry :: sd_library where
  "sd_one_entry tr =
     (case last_call tr of
        Some (sd_journal_get_realtime_usec h) \<Rightarrow> sd_answer 0 [] 1600000000000000
      | Some (sd_journal_get_monotonic_usec h) \<Rightarrow> sd_answer 0 [] 5000000
      | Some (sd_journal_get_cursor h) \<Rightarrow> sd_answer 0 ''s=1f;i=2'' 0
      | Some (sd_journal_enumerate_data h) \<Rightarrow>
          (if enum_count tr = 1 then sd_answer 1 ''MESSAGE=a=b'' 0
           else if enum_count tr = 2 then sd_answer 1 ''PRIORITY=6'' 0
           else sd_answer 0 [] 0)
      | _ \<Rightarrow> sd_answer 0 [] 0)"

section \<open>Submitting: what the claims speak of\<close>








section \<open>What the claims about the worker speak of\<close>

text \<open>
  Calls that neither open or close a connection nor move its position; the number of
  native closes in a history; deliveries in which only the last may carry an error; the
  number of stopped notifications; and the cursors of the entries delivered, in order.
\<close>

definition quiet :: "sd_call \<Rightarrow> bool" where
  "quiet c =
     (case c of
        sd_journal_open \<Rightarrow> False
      | sd_journal_close h \<Rightarrow> False
      | sd_journal_next h \<Rightarrow> False
      | sd_journal_previous h \<Rightarrow> False
      | sd_journal_seek_tail h \<Rightarrow> False
      | sd_journal_seek_cursor h s \<Rightarrow> False
      | _ \<Rightarrow> True)"

definition is_close :: "sd_call \<Rightarrow> bool" where
  "is_close c = (case c of sd_journal_close h \<Rightarrow> True | _ \<Rightarrow> False)"

definition closes :: "sd_call list \<Rightarrow> nat" where
  "closes tr = length (filter is_close tr)"

definition orderly :: "delivery list \<Rightarrow> bool" where
  "orderly ds = list_all (\<lambda>d. snd d = None) (butlast ds)"

definition stopped_count :: "delivery list \<Rightarrow> nat" where
  "stopped_count ds =
     length (filter (\<lambda>d. case d of (None, Some e) \<Rightarrow> e = ErrFollowStopped | _ \<Rightarrow> False) ds)"

definition delivered_cursors :: "delivery list \<Rightarrow> string list" where
  "delivered_cursors ds = List.map_filter (\<lambda>d. map_option Cursor_f (fst d)) ds"

section \<open>A reference journal\<close>

text \<open>
  Which entry a read returns is decided by the native library, not by the repository.
  To state what the worker delivers, the library is instantiated by a reference journal
  that behaves as the manual pages of \<open>sd_journal_next\<close>, \<open>sd_journal_seek_cursor\<close> and
  \<open>sd_journal_get_cursor\<close> describe. Its entries are numbered from 0 in the order of
  the journal (as seen through the filters); \<open>visible S t\<close> entries exist when the
  \<open>t\<close>-th native call is made. A connection is at no entry after a seek: \<open>Sought i\<close>
  stands just before entry \<open>i\<close>, and the following \<open>next\<close> lands on entry \<open>i\<close> once it
  exists; \<open>next\<close> from \<open>At i\<close> lands on entry \<open>i + 1\<close>; with no such entry \<open>next\<close>
  answers 0 and the position stays. Reads answer \<open>-EADDRNOTAVAIL\<close> (-99) unless the
  position is \<open>At\<close>. The cursor of entry \<open>i\<close> is a text that \<open>index_of\<close> reads back. The
  answers of \<open>wait\<close> are left open (\<open>wakeup S t\<close>). The reference journal serves one
  connection at a time: \<open>open\<close> starts over.
\<close>

datatype position = Unset | Sought nat | At nat

fun next_index :: "position \<Rightarrow> nat" where
  "next_index Unset = 0"
| "next_index (Sought i) = i"
| "next_index (At i) = Suc i"

record journal_ref =
  visible :: "nat \<Rightarrow> nat"
  entry_data :: "nat \<Rightarrow> string list"
  realtime :: "nat \<Rightarrow> 64 word"
  monotonic :: "nat \<Rightarrow> 64 word"
  wakeup :: "nat \<Rightarrow> int"

record ref_state =
  pos :: position
  data_ix :: nat

definition cursor_of :: "nat \<Rightarrow> string" where
  "cursor_of i = ''i='' @ replicate i (CHR ''1'')"

definition index_of :: "string \<Rightarrow> nat option" where
  "index_of s =
     (if take 2 s = ''i='' \<and> list_all (\<lambda>c. c = CHR ''1'') (drop 2 s)
      then Some (length s - 2) else None)"

definition answer :: "int \<Rightarrow> sd_result" where
  "answer r = \<lparr>ret = r, out_str = [], out_u64 = 0, out_handle = 1\<rparr>"

fun ref_step :: "journal_ref \<Rightarrow> nat \<Rightarrow> ref_state \<Rightarrow> sd_call \<Rightarrow> sd_result \<times> ref_state" where
  "ref_step S t s sd_journal_open = (answer 0, \<lparr>pos = Unset, data_ix = 0\<rparr>)"
| "ref_step S t s (sd_journal_next h) =
     (if next_index (pos s) < visible S t
      then (answer 1, \<lparr>pos = At (next_index (pos s)), data_ix = 0\<rparr>)
      else (answer 0, s))"
| "ref_step S t s (sd_journal_previous h) =
     (case pos s of
        At i \<Rightarrow> if 0 < i then (answer 1, \<lparr>pos = At (i - 1), data_ix = 0\<rparr>) else (answer 0, s)
      | Sought i \<Rightarrow>
          if 0 < i \<and> i - 1 < visible S t then (answer 1, \<lparr>pos = At (i - 1), data_ix = 0\<rparr>)
          else (answer 0, s)
      | Unset \<Rightarrow> (answer 0, s))"
| "ref_step S t s (sd_journal_seek_tail h) = (answer 0, s\<lparr>pos := Sought (visible S t)\<rparr>)"
| "ref_step S t s (sd_journal_seek_cursor h c) =
     (case index_of c of
        None \<Rightarrow> (answer (- 22), s)
      | Some i \<Rightarrow> (answer 0, s\<lparr>pos := Sought i\<rparr>))"
| "ref_step S t s (sd_journal_get_cursor h) =
     (case pos s of
        At i \<Rightarrow> ((answer 0)\<lparr>out_str := cursor_of i\<rparr>, s)
      | p \<Rightarrow> (answer (- 99), s))"
| "ref_step S t s (sd_journal_get_realtime_usec h) =
     (case pos s of
        At i \<Rightarrow> ((answer 0)\<lparr>out_u64 := realtime S i\<rparr>, s)
      | p \<Rightarrow> (answer (- 99), s))"
| "ref_step S t s (sd_journal_get_monotonic_usec h) =
     (case pos s of
        At i \<Rightarrow> ((answer 0)\<lparr>out_u64 := monotonic S i\<rparr>, s)
      | p \<Rightarrow> (answer (- 99), s))"
| "ref_step S t s (sd_journal_restart_data h) = (answer 0, s\<lparr>data_ix := 0\<rparr>)"
| "ref_step S t s (sd_journal_enumerate_data h) =
     (case pos s of
        At i \<Rightarrow>
          if data_ix s < length (entry_data S i)
          then ((answer 1)\<lparr>out_str := entry_data S i ! data_ix s\<rparr>, s\<lparr>data_ix := Suc (data_ix s)\<rparr>)
          else (answer 0, s)
      | p \<Rightarrow> (answer (- 99), s))"
| "ref_step S t s (sd_journal_wait h timeout) = (answer (wakeup S t), s)"
| "ref_step S t s c = (answer 0, s)"

fun ref_replay :: "journal_ref \<Rightarrow> nat \<Rightarrow> ref_state \<Rightarrow> sd_call list \<Rightarrow> ref_state" where
  "ref_replay S t s [] = s"
| "ref_replay S t s (c # cs) = ref_replay S (Suc t) (snd (ref_step S t s c)) cs"

definition state_after :: "journal_ref \<Rightarrow> sd_call list \<Rightarrow> ref_state" where
  "state_after S tr = ref_replay S 0 \<lparr>pos = Unset, data_ix = 0\<rparr> tr"

definition sd_ref :: "journal_ref \<Rightarrow> sd_library" where
  "sd_ref S tr =
     (case rev tr of
        [] \<Rightarrow> answer 0
      | c # earlier \<Rightarrow> fst (ref_step S (length earlier) (state_after S (rev earlier)) c))"

text \<open>
  A worker state at the start; a journal of three entries that gains a fourth before the
  twelfth native call; a handler; and the history and worker state left by a \<open>Follow\<close>
  that was called right after \<open>SeekTail\<close> on that journal.
\<close>

definition fresh_worker :: "nat list \<Rightarrow> worker_state" where
  "fresh_worker sc = \<lparr>trace = [], shared = new_stop, sched = sc, delivered = []\<rparr>"

definition one_more :: journal_ref where
  "one_more = \<lparr>visible = (\<lambda>t. if t < 11 then 3 else 4),
               entry_data = (\<lambda>i. [''MESSAGE=entry'']),
               realtime = (\<lambda>i. of_nat (1000 + i)),
               monotonic = (\<lambda>i. of_nat i),
               wakeup = (\<lambda>t. 1)\<rparr>"

text \<open>A journal without entries.\<close>

definition no_entries :: journal_ref where
  "no_entries = \<lparr>visible = (\<lambda>t. 0),
                 entry_data = (\<lambda>i. []),
                 realtime = (\<lambda>i. 0),
                 monotonic = (\<lambda>i. 0),
                 wakeup = (\<lambda>t. 0)\<rparr>"

definition a_handler :: FollowHandler where
  "a_handler = Some (FuncVal 1)"

definition J1 :: Journal where
  "J1 = \<lparr>sdJournal = 1, matches = []\<rparr>"

definition at_tail :: "sd_call list" where
  "at_tail = [sd_journal_open, sd_journal_seek_tail 1]"

definition followed :: "sd_call list" where
  "followed = at_tail @ [sd_journal_get_cursor 1, sd_journal_seek_tail 1,
                         sd_journal_previous 1, sd_journal_get_cursor 1]"

definition followed_worker :: worker_state where
  "followed_worker = \<lparr>trace = followed, shared = new_stop, sched = [0, 0, 1], delivered = []\<rparr>"

section \<open>The native call of Close\<close>


section \<open>Wait and its timeout\<close>

lemma Wait_trace:
  "snd (Wait L j timeout tr) = tr @ [sd_journal_wait (sdJournal j) (Wait_native_timeout timeout)]"
  by (simp add: Wait_def sd_invoke_def Let_def)

lemma small_negative_truncates:
  assumes "- 1000 < k" and "k < (0::int)"
  shows "k sdiv 1000 = 0"
proof -
  have "\<bar>k\<bar> < 1000" using assms by simp
  then have "\<bar>k\<bar> div 1000 = 0" by simp
  then show ?thesis by (simp add: signed_divide_int_def)
qed

text \<open>
  C3, as stated: every negative timeout makes \<open>Wait\<close> block for ever. It fails at
  \<open>-2\<close> nanoseconds: the value is negative, it is not the sentinel, and the native
  timeout is 0, so the native wait returns at once.
\<close>

theorem Wait_negative_counterexample:
  "sint (- 2 :: 64 word) < 0 \<and>
   snd (Wait sd_quiet \<lparr>sdJournal = 7, matches = []\<rparr> (- 2) []) = [sd_journal_wait 7 0]"
  by (simp add: Wait_trace Wait_native_timeout_def signed_divide_int_def)

text \<open>
  C3, amended: \<open>Wait\<close> passes the block-for-ever value \<open>UINT64_MAX\<close> to the native wait
  when the timeout is exactly \<open>-1\<close>; any other timeout is divided by 1000, truncating
  towards zero, and reinterpreted as unsigned, so a negative timeout between \<open>-999\<close> and
  \<open>-2\<close> nanoseconds becomes the native timeout 0.
\<close>

theorem Wait_sentinel_only:
  "snd (Wait L j (- 1) tr) = tr @ [sd_journal_wait (sdJournal j) (- 1)] \<and>
   (timeout \<noteq> - 1 \<longrightarrow>
      snd (Wait L j timeout tr)
        = tr @ [sd_journal_wait (sdJournal j) (word_of_int (sint timeout sdiv 1000))]) \<and>
   (- 1000 < sint timeout \<and> sint timeout < - 1 \<longrightarrow>
      snd (Wait L j timeout tr) = tr @ [sd_journal_wait (sdJournal j) 0])"
proof (intro conjI impI)
  show "snd (Wait L j (- 1) tr) = tr @ [sd_journal_wait (sdJournal j) (- 1)]"
    by (simp add: Wait_trace Wait_native_timeout_def)
next
  assume "timeout \<noteq> - 1"
  then show "snd (Wait L j timeout tr)
      = tr @ [sd_journal_wait (sdJournal j) (word_of_int (sint timeout sdiv 1000))]"
    by (simp add: Wait_trace Wait_native_timeout_def)
next
  assume a: "- 1000 < sint timeout \<and> sint timeout < - 1"
  then have ne: "timeout \<noteq> - 1" by auto
  from a have "sint timeout sdiv 1000 = 0"
    by (intro small_negative_truncates) simp_all
  with ne show "snd (Wait L j timeout tr) = tr @ [sd_journal_wait (sdJournal j) 0]"
    by (simp add: Wait_trace Wait_native_timeout_def)
qed

theorem Wait_sentinel_only_witness:
  "snd (Wait sd_quiet \<lparr>sdJournal = 7, matches = []\<rparr> (- 1) []) = [sd_journal_wait 7 (- 1)] \<and>
   snd (Wait sd_quiet \<lparr>sdJournal = 7, matches = []\<rparr> (- 5000) []) = [sd_journal_wait 7 (- 5)] \<and>
   snd (Wait sd_quiet \<lparr>sdJournal = 7, matches = []\<rparr> (- 999) []) = [sd_journal_wait 7 0]"
  using Wait_sentinel_only [of sd_quiet "\<lparr>sdJournal = 7, matches = []\<rparr>" "[]" "- 5000"]
        Wait_sentinel_only [of sd_quiet "\<lparr>sdJournal = 7, matches = []\<rparr>" "[]" "- 999"]
  by (simp add: signed_divide_int_def)

section \<open>AddMatch\<close>

lemma add_values_trace:
  "snd (add_values L h f vs r tr) = tr @ map (\<lambda>v. sd_journal_add_match h (f @ ''='' @ v)) vs"
  by (induction vs arbitrary: r tr) (simp_all add: sd_invoke_def)

lemma add_expr_trace: "snd (add_expr L h e tr) = tr @ node_calls h e"
  by (cases "op e") (simp_all add: add_expr_def node_calls_def add_values_trace sd_invoke_def)

lemma add_values_result:
  "add_values L h f vs r tr
     = (if vs = [] then r else ret (L (tr @ map (\<lambda>v. sd_journal_add_match h (f @ ''='' @ v)) vs)),
        tr @ map (\<lambda>v. sd_journal_add_match h (f @ ''='' @ v)) vs)"
  by (induction vs arbitrary: r tr) (simp_all add: sd_invoke_def)

lemma add_expr_result: "add_expr L h e tr = (node_ret L h e tr, tr @ node_calls h e)"
  by (cases "op e")
     (simp_all add: add_expr_def node_ret_def node_calls_def add_values_result sd_invoke_def)

lemma tested_0: "tested L h (e # es) tr 0 = node_ret L h e tr"
  by (simp add: tested_def filter_calls_def)

lemma tested_Suc: "tested L h (e # es) tr (Suc k) = tested L h es (tr @ node_calls h e) k"
  by (simp add: tested_def filter_calls_def)

lemma add_exprs_accepted:
  "\<forall>k<length es. 0 \<le> tested L h es tr k
     \<Longrightarrow> add_exprs L h es tr = (None, tr @ filter_calls h es)"
proof (induction es arbitrary: tr)
  case Nil
  then show ?case by (simp add: filter_calls_def)
next
  case (Cons e es)
  from Cons.prems have "0 \<le> tested L h (e # es) tr 0" by blast
  then have e: "\<not> node_ret L h e tr < 0" by (simp add: tested_0)
  have "\<forall>k<length es. 0 \<le> tested L h es (tr @ node_calls h e) k"
  proof (intro allI impI)
    fix k assume "k < length es"
    then have "Suc k < length (e # es)" by simp
    with Cons.prems have "0 \<le> tested L h (e # es) tr (Suc k)" by blast
    then show "0 \<le> tested L h es (tr @ node_calls h e) k" by (simp add: tested_Suc)
  qed
  from Cons.IH [OF this] e show ?case
    by (simp add: add_expr_result filter_calls_def)
qed

lemma add_exprs_rejected:
  "i < length es \<Longrightarrow> \<forall>k<i. 0 \<le> tested L h es tr k \<Longrightarrow> tested L h es tr i < 0
     \<Longrightarrow> add_exprs L h es tr
           = (Some (WrapError ''failed to add match'' (Errno_of_C (tested L h es tr i))),
              tr @ filter_calls h (take (Suc i) es))"
proof (induction es arbitrary: tr i)
  case Nil
  then show ?case by simp
next
  case (Cons e es)
  show ?case
  proof (cases i)
    case 0
    with Cons.prems show ?thesis
      by (simp add: tested_0 add_expr_result filter_calls_def)
  next
    case (Suc i')
    with Cons.prems have i': "i' < length es" by simp
    from Cons.prems Suc have "0 \<le> tested L h (e # es) tr 0" by blast
    then have e: "\<not> node_ret L h e tr < 0" by (simp add: tested_0)
    have pre: "\<forall>k<i'. 0 \<le> tested L h es (tr @ node_calls h e) k"
    proof (intro allI impI)
      fix k assume "k < i'"
      then have "Suc k < i" using Suc by simp
      with Cons.prems have "0 \<le> tested L h (e # es) tr (Suc k)" by blast
      then show "0 \<le> tested L h es (tr @ node_calls h e) k" by (simp add: tested_Suc)
    qed
    from Cons.prems Suc have neg: "tested L h es (tr @ node_calls h e) i' < 0"
      by (simp add: tested_Suc)
    from Cons.IH [OF i' pre neg] e show ?thesis
      by (simp add: add_expr_result filter_calls_def Suc tested_Suc)
  qed
qed

lemma AddMatch_result: "AddMatch_follows_answers L j m tr"
proof -
  let ?h = "sdJournal j"
  have a: "expr m = [] \<longrightarrow>
            AddMatch L j (Some m) tr = (Some (ErrorString ''no match expression to add''), j, tr)"
    by (simp add: AddMatch_def)
  have b: "expr m \<noteq> [] \<and> (\<forall>k<length (expr m). 0 \<le> tested L ?h (expr m) tr k) \<longrightarrow>
            AddMatch L j (Some m) tr
              = (None, j\<lparr>matches := matches j @ [m]\<rparr>, tr @ filter_calls ?h (expr m))"
    using add_exprs_accepted [of "expr m" L ?h tr] by (simp add: AddMatch_def)
  have c: "\<forall>i<length (expr m). (\<forall>k<i. 0 \<le> tested L ?h (expr m) tr k) \<and> tested L ?h (expr m) tr i < 0 \<longrightarrow>
            AddMatch L j (Some m) tr
              = (Some (WrapError ''failed to add match'' (Errno_of_C (tested L ?h (expr m) tr i))), j,
                 tr @ filter_calls ?h (take (Suc i) (expr m)))"
  proof (intro allI impI)
    fix i assume i: "i < length (expr m)"
      and h: "(\<forall>k<i. 0 \<le> tested L ?h (expr m) tr k) \<and> tested L ?h (expr m) tr i < 0"
    then have ne: "expr m \<noteq> []" by auto
    from h have p: "\<forall>k<i. 0 \<le> tested L ?h (expr m) tr k" and n: "tested L ?h (expr m) tr i < 0"
      by blast+
    from add_exprs_rejected [OF i p n] ne show "AddMatch L j (Some m) tr
              = (Some (WrapError ''failed to add match'' (Errno_of_C (tested L ?h (expr m) tr i))), j,
                 tr @ filter_calls ?h (take (Suc i) (expr m)))"
      by (simp add: AddMatch_def)
  qed
  from a b c show ?thesis
    unfolding AddMatch_follows_answers_def Let_def by blast
qed

text \<open>
  C8 says that when \<open>AddMatch\<close> succeeds the nodes have been compiled into the native
  filter. The code tests one answer per node: inside a field node the variable \<open>ret\<close> is
  overwritten by the call of each value, so the answer tested is that of the last value.
  \<open>AddMatch\<close> on a nil or empty match returns the error ``no match expression to add''
  and leaves the connection and the history of native calls as they were. On a match with
  nodes it returns no error and retains the match as soon as the tested answers are all
  non-negative, whatever the library answered to the other values; and it returns the
  error of the first node whose tested answer is negative, without retaining the match.
\<close>

theorem AddMatch_tests_last_answer_of_node:
  "AddMatch L j None tr = (Some (ErrorString ''no match expression to add''), j, tr) \<and>
   (expr m = [] \<longrightarrow>
      AddMatch L j (Some m) tr = (Some (ErrorString ''no match expression to add''), j, tr)) \<and>
   (expr m \<noteq> [] \<and> (\<forall>k<length (expr m). 0 \<le> tested L (sdJournal j) (expr m) tr k) \<longrightarrow>
      AddMatch L j (Some m) tr
        = (None, j\<lparr>matches := matches j @ [m]\<rparr>, tr @ filter_calls (sdJournal j) (expr m))) \<and>
   (i < length (expr m) \<and> (\<forall>k<i. 0 \<le> tested L (sdJournal j) (expr m) tr k) \<and>
    tested L (sdJournal j) (expr m) tr i < 0 \<longrightarrow>
      AddMatch L j (Some m) tr
        = (Some (WrapError ''failed to add match'' (Errno_of_C (tested L (sdJournal j) (expr m) tr i))),
           j, tr @ filter_calls (sdJournal j) (take (Suc i) (expr m))))"
proof -
  have nil: "AddMatch L j None tr = (Some (ErrorString ''no match expression to add''), j, tr)"
    by (simp add: AddMatch_def)
  from AddMatch_result [of L j m tr] nil show ?thesis
    unfolding AddMatch_follows_answers_def Let_def by blast
qed

theorem AddMatch_tests_last_answer_of_node_witness:
  "ret (sd_script [- 22, 0] [sd_journal_add_match 7 ''_SYSTEMD_UNIT=sshd.service'']) = - 22 \<and>
   AddMatch (sd_script [- 22, 0]) J7 (Some two_units) []
     = (None, J7\<lparr>matches := [two_units]\<rparr>,
        [sd_journal_add_match 7 ''_SYSTEMD_UNIT=sshd.service'',
         sd_journal_add_match 7 ''_SYSTEMD_UNIT=gdm.service'']) \<and>
   AddMatch (sd_script [0, - 22]) J7 (Some two_units) []
     = (Some (WrapError ''failed to add match'' (Errno 22)), J7,
        [sd_journal_add_match 7 ''_SYSTEMD_UNIT=sshd.service'',
         sd_journal_add_match 7 ''_SYSTEMD_UNIT=gdm.service''])"
  using AddMatch_tests_last_answer_of_node
          [where L = "sd_script [- 22, 0]" and j = J7 and m = two_units and tr = "[]" and i = 0]
        AddMatch_tests_last_answer_of_node
          [where L = "sd_script [0, - 22]" and j = J7 and m = two_units and tr = "[]" and i = 0]
  by (simp add: tested_def node_ret_def node_calls_def filter_calls_def two_units_def
                sd_script_def J7_def Errno_of_C_def)

section \<open>ReadEntry\<close>



lemma enum_answer_shift:
  "enum_answer L h (tr @ [sd_journal_enumerate_data h]) i = enum_answer L h tr (Suc i)"
  by (simp add: enum_answer_def replicate_append_same)

lemma enum_data_Suc:
  "enum_data L h tr (Suc k)
     = out_str (enum_answer L h tr 0) # enum_data L h (tr @ [sd_journal_enumerate_data h]) k"
proof -
  have "[0..<Suc k] = 0 # map Suc [0..<k]"
    by (simp add: upt_conv_Cons map_Suc_upt del: upt_Suc)
  then show ?thesis
    by (simp add: enum_data_def enum_answer_shift comp_def del: upt_Suc)
qed

lemma enumerate_fields_Inr:
  "enumerate_fields n L h fs tr = (Some (Inr fs'), tr') \<Longrightarrow>
     \<exists>k<n. ret (enum_answer L h tr k) = 0 \<and>
         (\<forall>i<k. 0 < ret (enum_answer L h tr i) \<and> SplitN2 (out_str (enum_answer L h tr i)) \<noteq> None) \<and>
         fs' = fold put_field (enum_data L h tr k) fs \<and>
         tr' = tr @ replicate (Suc k) (sd_journal_enumerate_data h)"
proof (induction n arbitrary: fs tr)
  case 0
  then show ?case by simp
next
  case (Suc n)
  let ?c = "sd_journal_enumerate_data h"
  let ?r = "L (tr @ [?c])"
  have r0: "enum_answer L h tr 0 = ?r" by (simp add: enum_answer_def)
  show ?case
  proof (cases "ret ?r = 0")
    case True
    with Suc.prems have "fs' = fs" and "tr' = tr @ [?c]"
      by (simp_all add: sd_invoke_def)
    with True r0 have "ret (enum_answer L h tr 0) = 0 \<and>
         (\<forall>i<0. 0 < ret (enum_answer L h tr i) \<and> SplitN2 (out_str (enum_answer L h tr i)) \<noteq> None) \<and>
         fs' = fold put_field (enum_data L h tr 0) fs \<and>
         tr' = tr @ replicate (Suc 0) ?c"
      by (simp add: enum_data_def)
    then show ?thesis by blast
  next
    case False
    with Suc.prems have pos: "0 < ret ?r"
      by (auto simp: sd_invoke_def split: if_splits)
    with False Suc.prems obtain key v where
      kv: "SplitN2 (out_str ?r) = Some (key, v)" and
      rec: "enumerate_fields n L h (fs(key \<mapsto> v)) (tr @ [?c]) = (Some (Inr fs'), tr')"
      by (auto simp: sd_invoke_def split: if_splits option.splits)
    from Suc.IH [OF rec] obtain k where
      kn: "k < n" and
      z: "ret (enum_answer L h (tr @ [?c]) k) = 0" and
      p: "\<forall>i<k. 0 < ret (enum_answer L h (tr @ [?c]) i)
               \<and> SplitN2 (out_str (enum_answer L h (tr @ [?c]) i)) \<noteq> None" and
      f: "fs' = fold put_field (enum_data L h (tr @ [?c]) k) (fs(key \<mapsto> v))" and
      t: "tr' = (tr @ [?c]) @ replicate (Suc k) ?c"
      by blast
    have z': "ret (enum_answer L h tr (Suc k)) = 0"
      using z by (simp add: enum_answer_shift)
    have p': "\<forall>i<Suc k. 0 < ret (enum_answer L h tr i)
               \<and> SplitN2 (out_str (enum_answer L h tr i)) \<noteq> None"
    proof (intro allI impI)
      fix i assume "i < Suc k"
      show "0 < ret (enum_answer L h tr i) \<and> SplitN2 (out_str (enum_answer L h tr i)) \<noteq> None"
      proof (cases i)
        case 0
        with pos kv r0 show ?thesis by simp
      next
        case (Suc i')
        with \<open>i < Suc k\<close> have "i' < k" by simp
        with p Suc show ?thesis by (simp add: enum_answer_shift)
      qed
    qed
    have f': "fs' = fold put_field (enum_data L h tr (Suc k)) fs"
      using f kv r0 by (simp add: enum_data_Suc put_field_def)
    have t': "tr' = tr @ replicate (Suc (Suc k)) ?c"
      using t by (simp add: replicate_append_same)
    from kn z' p' f' t' show ?thesis by blast
  qed
qed

lemma enumerate_fields_run:
  assumes "\<forall>i<k. 0 < ret (enum_answer L h tr i) \<and> SplitN2 (out_str (enum_answer L h tr i)) \<noteq> None"
  shows "enumerate_fields (k + n) L h fs tr
           = enumerate_fields n L h (fold put_field (enum_data L h tr k) fs)
               (tr @ replicate k (sd_journal_enumerate_data h))"
  using assms
proof (induction k arbitrary: fs tr)
  case 0
  then show ?case by (simp add: enum_data_def)
next
  case (Suc k)
  let ?c = "sd_journal_enumerate_data h"
  let ?r = "L (tr @ [?c])"
  have r0: "enum_answer L h tr 0 = ?r" by (simp add: enum_answer_def)
  from Suc.prems have "0 < ret (enum_answer L h tr 0)
      \<and> SplitN2 (out_str (enum_answer L h tr 0)) \<noteq> None"
    by blast
  with r0 have pos: "0 < ret ?r" and nn: "SplitN2 (out_str ?r) \<noteq> None"
    by simp_all
  from nn obtain key v where kv: "SplitN2 (out_str ?r) = Some (key, v)"
    by (cases "SplitN2 (out_str ?r)") auto
  have shift: "\<forall>i<k. 0 < ret (enum_answer L h (tr @ [?c]) i)
               \<and> SplitN2 (out_str (enum_answer L h (tr @ [?c]) i)) \<noteq> None"
    using Suc.prems by (simp add: enum_answer_shift)
  have "enumerate_fields (Suc k + n) L h fs tr
          = enumerate_fields (k + n) L h (fs(key \<mapsto> v)) (tr @ [?c])"
    using pos kv by (simp add: sd_invoke_def)
  also have "\<dots> = enumerate_fields n L h
                     (fold put_field (enum_data L h (tr @ [?c]) k) (fs(key \<mapsto> v)))
                     ((tr @ [?c]) @ replicate k ?c)"
    by (rule Suc.IH [OF shift])
  also have "\<dots> = enumerate_fields n L h (fold put_field (enum_data L h tr (Suc k)) fs)
                     (tr @ replicate (Suc k) ?c)"
    using kv r0 by (simp add: enum_data_Suc put_field_def replicate_append_same)
  finally show ?case .
qed

lemma dom_put_field: "dom fs \<subseteq> dom (put_field d fs)"
  by (auto simp: put_field_def split: option.splits)

lemma dom_fold_put_field: "dom fs \<subseteq> dom (fold put_field ds fs)"
proof (induction ds arbitrary: fs)
  case Nil
  then show ?case by simp
next
  case (Cons d ds)
  have "dom fs \<subseteq> dom (put_field d fs)" by (rule dom_put_field)
  also have "\<dots> \<subseteq> dom (fold put_field ds (put_field d fs))" by (rule Cons.IH)
  finally show ?case by simp
qed

lemma key_in_fold_put_field:
  "d \<in> set ds \<Longrightarrow> SplitN2 d = Some (key, v) \<Longrightarrow> key \<in> dom (fold put_field ds fs)"
proof (induction ds arbitrary: fs)
  case Nil
  then show ?case by simp
next
  case (Cons a ds)
  show ?case
  proof (cases "d = a")
    case True
    with Cons.prems have "key \<in> dom (put_field a fs)" by (simp add: put_field_def)
    then show ?thesis using dom_fold_put_field [of "put_field a fs" ds] by auto
  next
    case False
    with Cons.prems have "d \<in> set ds" by simp
    then show ?thesis using Cons.IH Cons.prems(2) by simp
  qed
qed

lemma ReadEntry_unfold:
  assumes "0 \<le> ret (L (tr @ [sd_journal_get_realtime_usec (sdJournal j)]))"
    and "0 \<le> ret (L (tr @ [sd_journal_get_realtime_usec (sdJournal j),
                             sd_journal_get_monotonic_usec (sdJournal j)]))"
    and "0 \<le> ret (L (tr @ [sd_journal_get_realtime_usec (sdJournal j),
                             sd_journal_get_monotonic_usec (sdJournal j),
                             sd_journal_get_cursor (sdJournal j)]))"
  shows "ReadEntry n L j tr =
     (case enumerate_fields n L (sdJournal j) Map.empty
             (tr @ [sd_journal_get_realtime_usec (sdJournal j),
                    sd_journal_get_monotonic_usec (sdJournal j),
                    sd_journal_get_cursor (sdJournal j),
                    sd_journal_restart_data (sdJournal j)]) of
        (None, tr5) \<Rightarrow> (None, tr5)
      | (Some (Inl e), tr5) \<Rightarrow> (Some (Inl e), tr5)
      | (Some (Inr fs), tr5) \<Rightarrow>
          (Some (Inr \<lparr>Fields = fs,
                      Cursor_f = out_str (L (tr @ [sd_journal_get_realtime_usec (sdJournal j),
                             sd_journal_get_monotonic_usec (sdJournal j),
                             sd_journal_get_cursor (sdJournal j)])),
                      Timestamp = out_u64 (L (tr @ [sd_journal_get_realtime_usec (sdJournal j)])) * 1000,
                      Elapsed = out_u64 (L (tr @ [sd_journal_get_realtime_usec (sdJournal j),
                             sd_journal_get_monotonic_usec (sdJournal j)]))\<rparr>), tr5))"
proof -
  obtain res tr5 where r: "enumerate_fields n L (sdJournal j) Map.empty
             (tr @ [sd_journal_get_realtime_usec (sdJournal j),
                    sd_journal_get_monotonic_usec (sdJournal j),
                    sd_journal_get_cursor (sdJournal j),
                    sd_journal_restart_data (sdJournal j)]) = (res, tr5)"
    by (cases "enumerate_fields n L (sdJournal j) Map.empty
             (tr @ [sd_journal_get_realtime_usec (sdJournal j),
                    sd_journal_get_monotonic_usec (sdJournal j),
                    sd_journal_get_cursor (sdJournal j),
                    sd_journal_restart_data (sdJournal j)])")
  show ?thesis
    using assms r
    by (simp add: ReadEntry_def sd_invoke_def Let_def split: option.splits sum.splits)
qed

lemma ReadEntry_Inr_early:
  assumes "fst (ReadEntry n L j tr) = Some (Inr e)"
  shows "0 \<le> ret (L (tr @ [sd_journal_get_realtime_usec (sdJournal j)])) \<and>
     0 \<le> ret (L (tr @ [sd_journal_get_realtime_usec (sdJournal j),
                             sd_journal_get_monotonic_usec (sdJournal j)])) \<and>
     0 \<le> ret (L (tr @ [sd_journal_get_realtime_usec (sdJournal j),
                             sd_journal_get_monotonic_usec (sdJournal j),
                             sd_journal_get_cursor (sdJournal j)]))"
proof -
  have a: "0 \<le> ret (L (tr @ [sd_journal_get_realtime_usec (sdJournal j)]))"
    using assms by (auto simp: ReadEntry_def sd_invoke_def Let_def split: if_splits)
  have b: "0 \<le> ret (L (tr @ [sd_journal_get_realtime_usec (sdJournal j),
                             sd_journal_get_monotonic_usec (sdJournal j)]))"
    using assms a by (auto simp: ReadEntry_def sd_invoke_def Let_def split: if_splits)
  have c: "0 \<le> ret (L (tr @ [sd_journal_get_realtime_usec (sdJournal j),
                             sd_journal_get_monotonic_usec (sdJournal j),
                             sd_journal_get_cursor (sdJournal j)]))"
    using assms a b by (auto simp: ReadEntry_def sd_invoke_def Let_def split: if_splits)
  from a b c show ?thesis by blast
qed

lemma enumerate_fields_at:
  assumes pre: "\<forall>i<k. 0 < ret (enum_answer L h tr i) \<and> SplitN2 (out_str (enum_answer L h tr i)) \<noteq> None"
    and kn: "k < n"
  shows "ret (enum_answer L h tr k) = 0 \<Longrightarrow>
           fst (enumerate_fields n L h fs tr) = Some (Inr (fold put_field (enum_data L h tr k) fs))"
    and "ret (enum_answer L h tr k) < 0 \<Longrightarrow>
           fst (enumerate_fields n L h fs tr)
             = Some (Inl (WrapError ''failed to read message field''
                            (Errno_of_C (ret (enum_answer L h tr k)))))"
    and "0 < ret (enum_answer L h tr k) \<Longrightarrow> SplitN2 (out_str (enum_answer L h tr k)) = None \<Longrightarrow>
           fst (enumerate_fields n L h fs tr) = Some (Inl (ErrorString ''failed to parse field''))"
proof -
  let ?c = "sd_journal_enumerate_data h"
  from kn obtain m where n: "n = k + Suc m"
    using less_iff_Suc_add by auto
  have last: "L ((tr @ replicate k ?c) @ [?c]) = enum_answer L h tr k"
    by (simp add: enum_answer_def replicate_append_same)
  have run: "enumerate_fields n L h fs tr
      = enumerate_fields (Suc m) L h (fold put_field (enum_data L h tr k) fs) (tr @ replicate k ?c)"
    unfolding n by (rule enumerate_fields_run [OF pre])
  show "ret (enum_answer L h tr k) = 0 \<Longrightarrow>
           fst (enumerate_fields n L h fs tr) = Some (Inr (fold put_field (enum_data L h tr k) fs))"
    using last by (simp add: run sd_invoke_def del: append_assoc)
  show "ret (enum_answer L h tr k) < 0 \<Longrightarrow>
           fst (enumerate_fields n L h fs tr)
             = Some (Inl (WrapError ''failed to read message field''
                            (Errno_of_C (ret (enum_answer L h tr k)))))"
    using last by (simp add: run sd_invoke_def del: append_assoc)
  show "0 < ret (enum_answer L h tr k) \<Longrightarrow> SplitN2 (out_str (enum_answer L h tr k)) = None \<Longrightarrow>
           fst (enumerate_fields n L h fs tr) = Some (Inl (ErrorString ''failed to parse field''))"
    using last by (simp add: run sd_invoke_def del: append_assoc)
qed

lemma fst_case_enum:
  "fst (case x of (None, t) \<Rightarrow> (None, t) | (Some (Inl e), t) \<Rightarrow> (Some (Inl e), t)
               | (Some (Inr fs), t) \<Rightarrow> (Some (Inr (mk fs)), t))
     = (case fst x of None \<Rightarrow> None | Some (Inl e) \<Rightarrow> Some (Inl e) | Some (Inr fs) \<Rightarrow> Some (Inr (mk fs)))"
  by (cases x) (auto split: option.splits sum.splits)

lemma ReadEntry_result:
  fixes L :: sd_library and j :: Journal and tr :: "sd_call list"
  defines "h \<equiv> sdJournal j"
  defines "r1 \<equiv> L (tr @ [sd_journal_get_realtime_usec h])"
  defines "r2 \<equiv> L (tr @ [sd_journal_get_realtime_usec h, sd_journal_get_monotonic_usec h])"
  defines "r3 \<equiv> L (tr @ [sd_journal_get_realtime_usec h, sd_journal_get_monotonic_usec h,
                          sd_journal_get_cursor h])"
  defines "tr4 \<equiv> tr @ [sd_journal_get_realtime_usec h, sd_journal_get_monotonic_usec h,
                        sd_journal_get_cursor h, sd_journal_restart_data h]"
  shows
   "(ret r1 < 0 \<longrightarrow>
       fst (ReadEntry n L j tr)
         = Some (Inl (WrapError ''failed to get realtime timestamp'' (Errno_of_C (ret r1))))) \<and>
    (0 \<le> ret r1 \<and> ret r2 < 0 \<longrightarrow>
       fst (ReadEntry n L j tr)
         = Some (Inl (WrapError ''failed to get monotonic timestamp'' (Errno_of_C (ret r2))))) \<and>
    (0 \<le> ret r1 \<and> 0 \<le> ret r2 \<and> ret r3 < 0 \<longrightarrow>
       fst (ReadEntry n L j tr) = Some (Inl (WrapError ''failed to read cursor'' (Errno_of_C (ret r3))))) \<and>
    (0 \<le> ret r1 \<and> 0 \<le> ret r2 \<and> 0 \<le> ret r3 \<and> k < n \<and>
     (\<forall>i<k. 0 < ret (enum_answer L h tr4 i) \<and> SplitN2 (out_str (enum_answer L h tr4 i)) \<noteq> None) \<longrightarrow>
       (ret (enum_answer L h tr4 k) < 0 \<longrightarrow>
          fst (ReadEntry n L j tr)
            = Some (Inl (WrapError ''failed to read message field''
                           (Errno_of_C (ret (enum_answer L h tr4 k)))))) \<and>
       (0 < ret (enum_answer L h tr4 k) \<and> SplitN2 (out_str (enum_answer L h tr4 k)) = None \<longrightarrow>
          fst (ReadEntry n L j tr) = Some (Inl (ErrorString ''failed to parse field''))) \<and>
       (ret (enum_answer L h tr4 k) = 0 \<longrightarrow>
          fst (ReadEntry n L j tr)
            = Some (Inr \<lparr>Fields = fields_of (enum_data L h tr4 k), Cursor_f = out_str r3,
                         Timestamp = out_u64 r1 * 1000, Elapsed = out_u64 r2\<rparr>))) \<and>
    (fst (ReadEntry n L j tr) = Some (Inr e) \<longrightarrow>
       Timestamp e = out_u64 r1 * 1000 \<and> Elapsed e = out_u64 r2 \<and> Cursor_f e = out_str r3 \<and>
       (\<exists>m<n. ret (enum_answer L h tr4 m) = 0 \<and>
              (\<forall>i<m. 0 < ret (enum_answer L h tr4 i)) \<and>
              Fields e = fields_of (enum_data L h tr4 m) \<and>
              (\<forall>d\<in>set (enum_data L h tr4 m).
                  \<exists>key v. SplitN2 d = Some (key, v) \<and> key \<in> dom (Fields e))))"
proof -
  have c1: "ret r1 < 0 \<longrightarrow>
       fst (ReadEntry n L j tr)
         = Some (Inl (WrapError ''failed to get realtime timestamp'' (Errno_of_C (ret r1))))"
    by (simp add: ReadEntry_def sd_invoke_def Let_def r1_def h_def)
  have c2: "0 \<le> ret r1 \<and> ret r2 < 0 \<longrightarrow>
       fst (ReadEntry n L j tr)
         = Some (Inl (WrapError ''failed to get monotonic timestamp'' (Errno_of_C (ret r2))))"
    by (simp add: ReadEntry_def sd_invoke_def Let_def r1_def r2_def h_def)
  have c3: "0 \<le> ret r1 \<and> 0 \<le> ret r2 \<and> ret r3 < 0 \<longrightarrow>
       fst (ReadEntry n L j tr) = Some (Inl (WrapError ''failed to read cursor'' (Errno_of_C (ret r3))))"
    by (simp add: ReadEntry_def sd_invoke_def Let_def r1_def r2_def r3_def h_def)
  have unf: "0 \<le> ret r1 \<Longrightarrow> 0 \<le> ret r2 \<Longrightarrow> 0 \<le> ret r3 \<Longrightarrow>
      fst (ReadEntry n L j tr)
        = (case fst (enumerate_fields n L h Map.empty tr4) of
             None \<Rightarrow> None
           | Some (Inl e) \<Rightarrow> Some (Inl e)
           | Some (Inr fs) \<Rightarrow> Some (Inr \<lparr>Fields = fs, Cursor_f = out_str r3,
                                        Timestamp = out_u64 r1 * 1000, Elapsed = out_u64 r2\<rparr>))"
    unfolding r1_def r2_def r3_def tr4_def h_def
    by (subst ReadEntry_unfold) (simp_all only: fst_case_enum)
  have c4: "0 \<le> ret r1 \<and> 0 \<le> ret r2 \<and> 0 \<le> ret r3 \<and> k < n \<and>
     (\<forall>i<k. 0 < ret (enum_answer L h tr4 i) \<and> SplitN2 (out_str (enum_answer L h tr4 i)) \<noteq> None) \<longrightarrow>
       (ret (enum_answer L h tr4 k) < 0 \<longrightarrow>
          fst (ReadEntry n L j tr)
            = Some (Inl (WrapError ''failed to read message field''
                           (Errno_of_C (ret (enum_answer L h tr4 k)))))) \<and>
       (0 < ret (enum_answer L h tr4 k) \<and> SplitN2 (out_str (enum_answer L h tr4 k)) = None \<longrightarrow>
          fst (ReadEntry n L j tr) = Some (Inl (ErrorString ''failed to parse field''))) \<and>
       (ret (enum_answer L h tr4 k) = 0 \<longrightarrow>
          fst (ReadEntry n L j tr)
            = Some (Inr \<lparr>Fields = fields_of (enum_data L h tr4 k), Cursor_f = out_str r3,
                         Timestamp = out_u64 r1 * 1000, Elapsed = out_u64 r2\<rparr>))"
  proof (intro impI)
    assume a: "0 \<le> ret r1 \<and> 0 \<le> ret r2 \<and> 0 \<le> ret r3 \<and> k < n \<and>
     (\<forall>i<k. 0 < ret (enum_answer L h tr4 i) \<and> SplitN2 (out_str (enum_answer L h tr4 i)) \<noteq> None)"
    then have pre: "\<forall>i<k. 0 < ret (enum_answer L h tr4 i)
        \<and> SplitN2 (out_str (enum_answer L h tr4 i)) \<noteq> None" and kn: "k < n"
      by blast+
    from a have u: "fst (ReadEntry n L j tr)
        = (case fst (enumerate_fields n L h Map.empty tr4) of
             None \<Rightarrow> None
           | Some (Inl e) \<Rightarrow> Some (Inl e)
           | Some (Inr fs) \<Rightarrow> Some (Inr \<lparr>Fields = fs, Cursor_f = out_str r3,
                                        Timestamp = out_u64 r1 * 1000, Elapsed = out_u64 r2\<rparr>))"
      using unf by blast
    note at = enumerate_fields_at [OF pre kn, of Map.empty]
    show "(ret (enum_answer L h tr4 k) < 0 \<longrightarrow>
          fst (ReadEntry n L j tr)
            = Some (Inl (WrapError ''failed to read message field''
                           (Errno_of_C (ret (enum_answer L h tr4 k)))))) \<and>
       (0 < ret (enum_answer L h tr4 k) \<and> SplitN2 (out_str (enum_answer L h tr4 k)) = None \<longrightarrow>
          fst (ReadEntry n L j tr) = Some (Inl (ErrorString ''failed to parse field''))) \<and>
       (ret (enum_answer L h tr4 k) = 0 \<longrightarrow>
          fst (ReadEntry n L j tr)
            = Some (Inr \<lparr>Fields = fields_of (enum_data L h tr4 k), Cursor_f = out_str r3,
                         Timestamp = out_u64 r1 * 1000, Elapsed = out_u64 r2\<rparr>))"
      using at by (simp add: u fields_of_def)
  qed
  have c5: "fst (ReadEntry n L j tr) = Some (Inr e) \<longrightarrow>
       Timestamp e = out_u64 r1 * 1000 \<and> Elapsed e = out_u64 r2 \<and> Cursor_f e = out_str r3 \<and>
       (\<exists>m<n. ret (enum_answer L h tr4 m) = 0 \<and>
              (\<forall>i<m. 0 < ret (enum_answer L h tr4 i)) \<and>
              Fields e = fields_of (enum_data L h tr4 m) \<and>
              (\<forall>d\<in>set (enum_data L h tr4 m).
                  \<exists>key v. SplitN2 d = Some (key, v) \<and> key \<in> dom (Fields e)))"
  proof
    assume ok: "fst (ReadEntry n L j tr) = Some (Inr e)"
    from ReadEntry_Inr_early [OF ok] have ge: "0 \<le> ret r1" "0 \<le> ret r2" "0 \<le> ret r3"
      by (simp_all add: r1_def r2_def r3_def h_def)
    from unf [OF ge] ok obtain fs where
      en: "fst (enumerate_fields n L h Map.empty tr4) = Some (Inr fs)" and
      e: "e = \<lparr>Fields = fs, Cursor_f = out_str r3,
               Timestamp = out_u64 r1 * 1000, Elapsed = out_u64 r2\<rparr>"
      by (auto split: option.splits sum.splits)
    obtain tr5 where "enumerate_fields n L h Map.empty tr4 = (Some (Inr fs), tr5)"
      using en by (cases "enumerate_fields n L h Map.empty tr4") auto
    from enumerate_fields_Inr [OF this] obtain m where
      mn: "m < n" and z: "ret (enum_answer L h tr4 m) = 0" and
      p: "\<forall>i<m. 0 < ret (enum_answer L h tr4 i)
              \<and> SplitN2 (out_str (enum_answer L h tr4 i)) \<noteq> None" and
      f: "fs = fold put_field (enum_data L h tr4 m) Map.empty"
      by blast
    have keys: "\<forall>d\<in>set (enum_data L h tr4 m).
                  \<exists>key v. SplitN2 d = Some (key, v) \<and> key \<in> dom (Fields e)"
    proof
      fix d assume d: "d \<in> set (enum_data L h tr4 m)"
      then obtain i where "i < m" and "d = out_str (enum_answer L h tr4 i)"
        by (auto simp: enum_data_def)
      with p have "SplitN2 d \<noteq> None" by simp
      then obtain key v where kv: "SplitN2 d = Some (key, v)" by (cases "SplitN2 d") auto
      from key_in_fold_put_field [OF d kv] have "key \<in> dom (Fields e)"
        by (simp add: e f)
      with kv show "\<exists>key v. SplitN2 d = Some (key, v) \<and> key \<in> dom (Fields e)" by blast
    qed
    from p have p': "\<forall>i<m. 0 < ret (enum_answer L h tr4 i)" by blast
    have fe: "Fields e = fields_of (enum_data L h tr4 m)" by (simp add: e f fields_of_def)
    from mn z p' fe keys have "\<exists>m<n. ret (enum_answer L h tr4 m) = 0 \<and>
              (\<forall>i<m. 0 < ret (enum_answer L h tr4 i)) \<and>
              Fields e = fields_of (enum_data L h tr4 m) \<and>
              (\<forall>d\<in>set (enum_data L h tr4 m).
                  \<exists>key v. SplitN2 d = Some (key, v) \<and> key \<in> dom (Fields e))"
      by blast
    then show "Timestamp e = out_u64 r1 * 1000 \<and> Elapsed e = out_u64 r2 \<and> Cursor_f e = out_str r3 \<and>
       (\<exists>m<n. ret (enum_answer L h tr4 m) = 0 \<and>
              (\<forall>i<m. 0 < ret (enum_answer L h tr4 i)) \<and>
              Fields e = fields_of (enum_data L h tr4 m) \<and>
              (\<forall>d\<in>set (enum_data L h tr4 m).
                  \<exists>key v. SplitN2 d = Some (key, v) \<and> key \<in> dom (Fields e)))"
      by (simp add: e)
  qed
  from c1 c2 c3 c4 c5 show ?thesis by blast
qed


lemma usec_Duration_fixed: "usec_Duration u = u \<longleftrightarrow> u = 0"
proof
  assume "usec_Duration u = u"
  then have "u * 1000 - u = 0" by (simp add: usec_Duration_def)
  then have "u * 999 = 0" by (simp add: algebra_simps)
  then have "u * 999 * 13719650497263460311 = 0" by (simp only: mult_zero_left)
  then have "u * (999 * 13719650497263460311) = 0" by (simp only: mult.assoc)
  moreover have "(999 * 13719650497263460311 :: 64 word) = 1"
    by (simp add: word_eq_iff_unsigned [where ?'a = nat] unsigned_numeral take_bit_eq_mod)
  ultimately show "u = 0" by (simp only: mult_1_right)
next
  assume "u = 0"
  then show "usec_Duration u = u" by (simp add: usec_Duration_def)
qed

text \<open>
  C7 says that on success the entry holds the elapsed duration. Both readings of the
  library are counts of microseconds. The code multiplies the realtime reading by
  \<open>time.Microsecond\<close> for \<open>Timestamp\<close>, but stores the monotonic reading as it is in
  \<open>Elapsed\<close>, a \<open>time.Duration\<close>, which counts nanoseconds. So in every entry that
  \<open>ReadEntry\<close> returns, \<open>Timestamp\<close> is the realtime reading in nanoseconds, \<open>Elapsed\<close> is
  the bare number of the monotonic reading, and \<open>Elapsed\<close> is the duration of that
  reading only when the reading is 0.
\<close>

theorem ReadEntry_Elapsed_unscaled:
  assumes "fst (ReadEntry n L j tr) = Some (Inr e)"
  shows "Timestamp e = usec_Duration (out_u64 (L (tr @ [sd_journal_get_realtime_usec (sdJournal j)]))) \<and>
         Elapsed e = out_u64 (L (tr @ [sd_journal_get_realtime_usec (sdJournal j),
                                      sd_journal_get_monotonic_usec (sdJournal j)])) \<and>
         (Elapsed e = usec_Duration (out_u64 (L (tr @ [sd_journal_get_realtime_usec (sdJournal j),
                                                      sd_journal_get_monotonic_usec (sdJournal j)])))
            \<longleftrightarrow> out_u64 (L (tr @ [sd_journal_get_realtime_usec (sdJournal j),
                                  sd_journal_get_monotonic_usec (sdJournal j)])) = 0)"
proof -
  from ReadEntry_result [where L = L and tr = tr and j = j and n = n and e = e] assms
  have t: "Timestamp e = out_u64 (L (tr @ [sd_journal_get_realtime_usec (sdJournal j)])) * 1000"
    and el: "Elapsed e = out_u64 (L (tr @ [sd_journal_get_realtime_usec (sdJournal j),
                                      sd_journal_get_monotonic_usec (sdJournal j)]))"
    by blast+
  from t el usec_Duration_fixed show ?thesis
    by (auto simp: usec_Duration_def)
qed

theorem ReadEntry_Elapsed_unscaled_witness:
  "fst (ReadEntry 3 sd_one_entry J7 [])
     = Some (Inr \<lparr>Fields = [''MESSAGE'' \<mapsto> ''a=b'', ''PRIORITY'' \<mapsto> ''6''],
                  Cursor_f = ''s=1f;i=2'', Timestamp = 1600000000000000000, Elapsed = 5000000\<rparr>) \<and>
   out_u64 (sd_one_entry [sd_journal_get_realtime_usec 7, sd_journal_get_monotonic_usec 7]) = 5000000 \<and>
   usec_Duration 5000000 = 5000000000"
proof -
  let ?tr4 = "[sd_journal_get_realtime_usec 7, sd_journal_get_monotonic_usec 7,
               sd_journal_get_cursor 7, sd_journal_restart_data 7]"
  let ?e = "\<lparr>Fields = [''MESSAGE'' \<mapsto> ''a=b'', ''PRIORITY'' \<mapsto> ''6''],
            Cursor_f = ''s=1f;i=2'', Timestamp = 1600000000000000000, Elapsed = 5000000\<rparr>"
  have a0: "enum_answer sd_one_entry 7 ?tr4 0 = sd_answer 1 ''MESSAGE=a=b'' 0"
    by (simp add: enum_answer_def sd_one_entry_def last_call_def enum_count_def)
  have a1: "enum_answer sd_one_entry 7 ?tr4 (Suc 0) = sd_answer 1 ''PRIORITY=6'' 0"
    by (simp add: enum_answer_def sd_one_entry_def last_call_def enum_count_def)
  have a2: "enum_answer sd_one_entry 7 ?tr4 (Suc (Suc 0)) = sd_answer 0 [] 0"
    by (simp add: enum_answer_def sd_one_entry_def last_call_def enum_count_def)
  have s0: "SplitN2 ''MESSAGE=a=b'' = Some (''MESSAGE'', ''a=b'')"
    by (simp add: SplitN2_def)
  have s1: "SplitN2 ''PRIORITY=6'' = Some (''PRIORITY'', ''6'')"
    by (simp add: SplitN2_def)
  have pre: "\<forall>i<Suc (Suc 0). 0 < ret (enum_answer sd_one_entry 7 ?tr4 i)
      \<and> SplitN2 (out_str (enum_answer sd_one_entry 7 ?tr4 i)) \<noteq> None"
    by (simp add: less_Suc_eq a0 a1 s0 s1 sd_answer_def)
  have data: "enum_data sd_one_entry 7 ?tr4 (Suc (Suc 0)) = [''MESSAGE=a=b'', ''PRIORITY=6'']"
    by (simp add: enum_data_def a0 a1 sd_answer_def)
  have fs: "fields_of [''MESSAGE=a=b'', ''PRIORITY=6''] = [''MESSAGE'' \<mapsto> ''a=b'', ''PRIORITY'' \<mapsto> ''6'']"
    by (simp add: fields_of_def put_field_def s0 s1)
  have heads: "sd_one_entry [sd_journal_get_realtime_usec 7] = sd_answer 0 [] 1600000000000000"
    "sd_one_entry [sd_journal_get_realtime_usec 7, sd_journal_get_monotonic_usec 7]
       = sd_answer 0 [] 5000000"
    "sd_one_entry [sd_journal_get_realtime_usec 7, sd_journal_get_monotonic_usec 7,
                   sd_journal_get_cursor 7] = sd_answer 0 ''s=1f;i=2'' 0"
    by (simp_all add: sd_one_entry_def last_call_def)
  have ok: "fst (ReadEntry 3 sd_one_entry J7 []) = Some (Inr ?e)"
    using ReadEntry_result [where L = sd_one_entry and tr = "[]" and j = J7 and k = "Suc (Suc 0)" and n = 3] pre a2
    by (simp add: J7_def heads data fs sd_answer_def)
  have u: "usec_Duration 5000000 = 5000000000"
    by (simp add: usec_Duration_def)
  from ReadEntry_Elapsed_unscaled [OF ok]
  have "out_u64 (sd_one_entry [sd_journal_get_realtime_usec 7, sd_journal_get_monotonic_usec 7])
          = 5000000"
    by (simp add: J7_def)
  with ok u show ?thesis by blast
qed

section \<open>Close\<close>




section \<open>Follow: the start\<close>

text \<open>
  C1 says that a failure of the cursor read other than \<open>EADDRNOTAVAIL\<close> makes
  \<open>Follow\<close> return the error and start no worker. The code tests the error only for
  \<open>EADDRNOTAVAIL\<close>: for any other negative answer \<open>Follow\<close> returns no error and
  starts the worker with the empty cursor.
\<close>

theorem Follow_other_cursor_error_spawns:
  assumes "ret (L (tr @ [sd_journal_get_cursor (sdJournal j)])) < 0"
    and "ret (L (tr @ [sd_journal_get_cursor (sdJournal j)])) \<noteq> - 99"
  shows "Follow L j h tr
           = (Inr (spawn h [] (matches j) False), tr @ [sd_journal_get_cursor (sdJournal j)])"
  using assms
  by (cases h)
     (simp_all add: Follow_def Cursor_def sd_invoke_def Let_def EADDRNOTAVAIL_def reflect_IsNil_def
                    Errno_of_C_def)

theorem Follow_other_cursor_error_spawns_witness:
  "Follow (sd_cursor_fails 9) J7 (Some (FuncVal 1)) []
     = (Inr \<lparr>goroutine = \<lparr>w_handler = Some (FuncVal 1), w_cursor = [], w_matches = [],
                          w_eof = False\<rparr>,
            stop_fn = \<lparr>once_done = False, done_chan = []\<rparr>\<rparr>,
        [sd_journal_get_cursor 7])"
  using Follow_other_cursor_error_spawns [of "sd_cursor_fails 9" "[]" J7 "Some (FuncVal 1)"]
  by (simp add: sd_cursor_fails_def last_call_def J7_def spawn_def new_stop_def)

text \<open>
  C10, as stated: \<open>Follow(nil)\<close> returns no error and starts the worker. On a journal
  without entries the cursor read answers \<open>-EADDRNOTAVAIL\<close>, and so does the second
  cursor read, after the seek to the tail and the step back: \<open>Follow(nil)\<close> returns that
  error.
\<close>

theorem Follow_nil_on_empty_journal_counterexample:
  "Follow (sd_ref no_entries) J1 None [sd_journal_open]
     = (Inl (WrapError ''failed to read cursor'' (Errno 99)),
        [sd_journal_open, sd_journal_get_cursor 1, sd_journal_seek_tail 1,
         sd_journal_previous 1, sd_journal_get_cursor 1])"
  by code_simp

lemma Follow_errors_wrapped:
  "\<not> (h \<noteq> None \<and> reflect_IsNil h) \<Longrightarrow> fst (Follow L j h tr) = Inl e \<Longrightarrow> \<exists>s c. e = WrapError s c"
  by (auto simp: Follow_def Cursor_def SeekTail_def Previous_def sd_invoke_def Let_def
           split: if_splits prod.splits sum.splits option.splits)

text \<open>
  C10, amended: the guard rejects no handler. Its condition, a handler that is not nil
  and that \<open>reflect\<close> reports nil, holds of no value of the function type, and \<open>Follow\<close>
  never returns ``a follow handler must be provided''. A nil handler passes the guard,
  and \<open>Follow(nil)\<close> returns no error and starts the worker, with the nil handler, when
  the cursor read succeeds, and when it answers \<open>-EADDRNOTAVAIL\<close> and the seek to the
  tail, the step back and the second cursor read succeed; when one of these three fails,
  \<open>Follow(nil)\<close> returns its error and starts no worker.
\<close>

theorem Follow_nil_handler_passes_guard:
  fixes L :: sd_library and j :: Journal and tr :: "sd_call list"
  defines "g \<equiv> sdJournal j"
  defines "tr1 \<equiv> tr @ [sd_journal_get_cursor g]"
  defines "tr2 \<equiv> tr @ [sd_journal_get_cursor g, sd_journal_seek_tail g]"
  defines "tr3 \<equiv> tr @ [sd_journal_get_cursor g, sd_journal_seek_tail g, sd_journal_previous g]"
  defines "tr4 \<equiv> tr @ [sd_journal_get_cursor g, sd_journal_seek_tail g, sd_journal_previous g,
                        sd_journal_get_cursor g]"
  shows
   "\<not> (h \<noteq> None \<and> reflect_IsNil h) \<and>
    fst (Follow L j h tr) \<noteq> Inl (ErrorString ''a follow handler must be provided'') \<and>
    (0 \<le> ret (L tr1) \<longrightarrow>
       Follow L j None tr = (Inr (spawn None (out_str (L tr1)) (matches j) False), tr1)) \<and>
    (ret (L tr1) = - 99 \<and> 0 \<le> ret (L tr2) \<and> 0 \<le> ret (L tr3) \<and> 0 \<le> ret (L tr4) \<longrightarrow>
       Follow L j None tr = (Inr (spawn None (out_str (L tr4)) (matches j) True), tr4)) \<and>
    (ret (L tr1) = - 99 \<and> ret (L tr2) < 0 \<longrightarrow>
       Follow L j None tr = (Inl (WrapError ''failed seek tail'' (Errno_of_C (ret (L tr2)))), tr2)) \<and>
    (ret (L tr1) = - 99 \<and> 0 \<le> ret (L tr2) \<and> ret (L tr3) < 0 \<longrightarrow>
       Follow L j None tr
         = (Inl (WrapError ''failed to move to prevoius entry'' (Errno_of_C (ret (L tr3)))), tr3)) \<and>
    (ret (L tr1) = - 99 \<and> 0 \<le> ret (L tr2) \<and> 0 \<le> ret (L tr3) \<and> ret (L tr4) < 0 \<longrightarrow>
       Follow L j None tr
         = (Inl (WrapError ''failed to read cursor'' (Errno_of_C (ret (L tr4)))), tr4))"
proof -
  have never: "\<not> (h \<noteq> None \<and> reflect_IsNil h)"
    by (cases h) (simp_all add: reflect_IsNil_def)
  have guard: "fst (Follow L j h tr) \<noteq> Inl (ErrorString ''a follow handler must be provided'')"
    using Follow_errors_wrapped [OF never, of L j tr] by auto
  have ok: "0 \<le> ret (L tr1) \<longrightarrow>
       Follow L j None tr = (Inr (spawn None (out_str (L tr1)) (matches j) False), tr1)"
    by (simp add: Follow_def Cursor_def sd_invoke_def Let_def tr1_def g_def)
  have c1: "ret (L tr1) = - 99 \<Longrightarrow> Cursor L j tr
       = (Inl (WrapError ''failed to read cursor'' (Errno_of_C (- 99))), tr1)"
    by (simp add: Cursor_def sd_invoke_def Let_def tr1_def g_def)
  have start: "ret (L tr1) = - 99 \<Longrightarrow> Follow L j None tr
      = (case SeekTail L j tr1 of
           (Some e, t2) \<Rightarrow> (Inl e, t2)
         | (None, t2) \<Rightarrow>
             (case Previous L j t2 of
                (Inl e, t3) \<Rightarrow> (Inl e, t3)
              | (Inr moved, t3) \<Rightarrow>
                  (case Cursor L j t3 of
                     (Inl e, t4) \<Rightarrow> (Inl e, t4)
                   | (Inr cursor, t4) \<Rightarrow> (Inr (spawn None cursor (matches j) True), t4))))"
    by (simp add: Follow_def c1 Errno_of_C_def EADDRNOTAVAIL_def)
  have t: "tr1 @ [sd_journal_seek_tail g] = tr2" "tr2 @ [sd_journal_previous g] = tr3"
    "tr3 @ [sd_journal_get_cursor g] = tr4"
    by (simp_all add: tr1_def tr2_def tr3_def tr4_def)
  have st: "SeekTail L j tr1
      = (if ret (L tr2) < 0 then Some (WrapError ''failed seek tail'' (Errno_of_C (ret (L tr2))))
         else None, tr2)"
    by (simp add: SeekTail_def sd_invoke_def Let_def t g_def [symmetric])
  have pv: "Previous L j tr2
      = (if ret (L tr3) < 0
         then Inl (WrapError ''failed to move to prevoius entry'' (Errno_of_C (ret (L tr3))))
         else Inr (ret (L tr3)), tr3)"
    by (simp add: Previous_def sd_invoke_def Let_def t g_def [symmetric])
  have cu: "Cursor L j tr3
      = (if ret (L tr4) < 0
         then Inl (WrapError ''failed to read cursor'' (Errno_of_C (ret (L tr4))))
         else Inr (out_str (L tr4)), tr4)"
    by (simp add: Cursor_def sd_invoke_def Let_def t g_def [symmetric])
  have r1: "ret (L tr1) = - 99 \<and> 0 \<le> ret (L tr2) \<and> 0 \<le> ret (L tr3) \<and> 0 \<le> ret (L tr4) \<longrightarrow>
       Follow L j None tr = (Inr (spawn None (out_str (L tr4)) (matches j) True), tr4)"
    by (simp add: start st pv cu)
  have r2: "ret (L tr1) = - 99 \<and> ret (L tr2) < 0 \<longrightarrow>
       Follow L j None tr = (Inl (WrapError ''failed seek tail'' (Errno_of_C (ret (L tr2)))), tr2)"
    by (simp add: start st)
  have r3: "ret (L tr1) = - 99 \<and> 0 \<le> ret (L tr2) \<and> ret (L tr3) < 0 \<longrightarrow>
       Follow L j None tr
         = (Inl (WrapError ''failed to move to prevoius entry'' (Errno_of_C (ret (L tr3)))), tr3)"
    by (simp add: start st pv)
  have r4: "ret (L tr1) = - 99 \<and> 0 \<le> ret (L tr2) \<and> 0 \<le> ret (L tr3) \<and> ret (L tr4) < 0 \<longrightarrow>
       Follow L j None tr
         = (Inl (WrapError ''failed to read cursor'' (Errno_of_C (ret (L tr4)))), tr4)"
    by (simp add: start st pv cu)
  from never guard ok r1 r2 r3 r4 show ?thesis by blast
qed

theorem Follow_nil_handler_passes_guard_witness:
  "Follow sd_quiet J7 None []
     = (Inr \<lparr>goroutine = \<lparr>w_handler = None, w_cursor = [], w_matches = [], w_eof = False\<rparr>,
            stop_fn = \<lparr>once_done = False, done_chan = []\<rparr>\<rparr>,
        [sd_journal_get_cursor 7]) \<and>
   Follow (sd_script [- 99, 0, 1, 0]) J7 None []
     = (Inr \<lparr>goroutine = \<lparr>w_handler = None, w_cursor = [], w_matches = [], w_eof = True\<rparr>,
            stop_fn = \<lparr>once_done = False, done_chan = []\<rparr>\<rparr>,
        [sd_journal_get_cursor 7, sd_journal_seek_tail 7, sd_journal_previous 7,
         sd_journal_get_cursor 7]) \<and>
   Follow (sd_script [- 99, - 5]) J7 None []
     = (Inl (WrapError ''failed seek tail'' (Errno 5)),
        [sd_journal_get_cursor 7, sd_journal_seek_tail 7]) \<and>
   Follow (sd_script [- 99, 0, - 5]) J7 None []
     = (Inl (WrapError ''failed to move to prevoius entry'' (Errno 5)),
        [sd_journal_get_cursor 7, sd_journal_seek_tail 7, sd_journal_previous 7]) \<and>
   Follow (sd_script [- 99, 0, 0, - 99]) J7 None []
     = (Inl (WrapError ''failed to read cursor'' (Errno 99)),
        [sd_journal_get_cursor 7, sd_journal_seek_tail 7, sd_journal_previous 7,
         sd_journal_get_cursor 7]) \<and>
   fst (Follow sd_quiet J7 (Some (FuncVal 1)) [])
     \<noteq> Inl (ErrorString ''a follow handler must be provided'')"
  using Follow_nil_handler_passes_guard [where L = sd_quiet and j = J7 and tr = "[]" and h = "Some (FuncVal 1)"]
        Follow_nil_handler_passes_guard [where L = "sd_script [- 99, 0, 1, 0]" and j = J7 and tr = "[]"]
        Follow_nil_handler_passes_guard [where L = "sd_script [- 99, - 5]" and j = J7 and tr = "[]"]
        Follow_nil_handler_passes_guard [where L = "sd_script [- 99, 0, - 5]" and j = J7 and tr = "[]"]
        Follow_nil_handler_passes_guard [where L = "sd_script [- 99, 0, 0, - 99]" and j = J7 and tr = "[]"]
  by (simp add: sd_quiet_def sd_script_def J7_def spawn_def new_stop_def Errno_of_C_def)

section \<open>SubmitWithFields\<close>















section \<open>The worker's loops\<close>

lemma select_done_keeps:
  "trace (snd (select_done w)) = trace w \<and> delivered (snd (select_done w)) = delivered w"
  by (simp add: select_done_def Let_def split: prod.splits)

lemma enumerate_fields_quiet:
  "\<exists>ext. snd (enumerate_fields n L h fs tr) = tr @ ext \<and> (\<forall>c\<in>set ext. quiet c)"
proof (induction n arbitrary: fs tr)
  case 0
  then show ?case by simp
next
  case (Suc n)
  let ?c = "sd_journal_enumerate_data h"
  have q: "quiet ?c" by (simp add: quiet_def)
  have one: "\<exists>ext. tr @ [?c] = tr @ ext \<and> (\<forall>c\<in>set ext. quiet c)"
    using q by (intro exI [of _ "[?c]"]) simp
  have more: "\<exists>ext. snd (enumerate_fields n L h fs' (tr @ [?c])) = tr @ ext \<and> (\<forall>c\<in>set ext. quiet c)"
    for fs'
  proof -
    from Suc.IH [of fs' "tr @ [?c]"] obtain ext where
      "snd (enumerate_fields n L h fs' (tr @ [?c])) = (tr @ [?c]) @ ext" and "\<forall>c\<in>set ext. quiet c"
      by blast
    with q show ?thesis by (intro exI [of _ "?c # ext"]) simp
  qed
  show ?case
    using one more by (simp add: sd_invoke_def Let_def split: option.splits prod.splits)
qed

lemma ReadEntry_quiet:
  "\<exists>ext. snd (ReadEntry n L j tr) = tr @ ext \<and> (\<forall>c\<in>set ext. quiet c)"
proof -
  let ?h = "sdJournal j"
  let ?p4 = "[sd_journal_get_realtime_usec ?h, sd_journal_get_monotonic_usec ?h,
              sd_journal_get_cursor ?h, sd_journal_restart_data ?h]"
  have q4: "\<forall>c\<in>set ?p4. quiet c" by (simp add: quiet_def)
  obtain ext where e: "snd (enumerate_fields n L ?h Map.empty (tr @ ?p4)) = (tr @ ?p4) @ ext"
    and qe: "\<forall>c\<in>set ext. quiet c"
    using enumerate_fields_quiet by blast
  obtain res tr5 where r: "enumerate_fields n L ?h Map.empty (tr @ ?p4) = (res, tr5)"
    by (cases "enumerate_fields n L ?h Map.empty (tr @ ?p4)")
  with e have tr5: "tr5 = tr @ ?p4 @ ext" by simp
  have a: "\<exists>x. tr @ [sd_journal_get_realtime_usec ?h] = tr @ x \<and> (\<forall>c\<in>set x. quiet c)"
    by (intro exI [of _ "[sd_journal_get_realtime_usec ?h]"]) (simp add: quiet_def)
  have b: "\<exists>x. tr @ [sd_journal_get_realtime_usec ?h, sd_journal_get_monotonic_usec ?h] = tr @ x
               \<and> (\<forall>c\<in>set x. quiet c)"
    by (intro exI [of _ "[sd_journal_get_realtime_usec ?h, sd_journal_get_monotonic_usec ?h]"])
       (simp add: quiet_def)
  have c: "\<exists>x. tr @ [sd_journal_get_realtime_usec ?h, sd_journal_get_monotonic_usec ?h,
                      sd_journal_get_cursor ?h] = tr @ x \<and> (\<forall>c\<in>set x. quiet c)"
    by (intro exI [of _ "[sd_journal_get_realtime_usec ?h, sd_journal_get_monotonic_usec ?h,
                          sd_journal_get_cursor ?h]"]) (simp add: quiet_def)
  have d: "\<exists>x. tr5 = tr @ x \<and> (\<forall>c\<in>set x. quiet c)"
    using tr5 q4 qe by (intro exI [of _ "?p4 @ ext"]) auto
  show ?thesis
    using r a b c d
    by (simp add: ReadEntry_def sd_invoke_def Let_def split: option.splits sum.splits)
qed

lemma deliver_exit_shape:
  "trace (snd (deliver_exit h d w)) = trace w \<and>
   (delivered (snd (deliver_exit h d w)) = delivered w
    \<or> delivered (snd (deliver_exit h d w)) = delivered w @ [d])"
  by (cases h) (simp_all add: deliver_exit_def call_handler_def)

text \<open>
  One induction over the two loops serves every invariant below. \<open>I\<close> holds of the
  history and the deliveries at the head of either loop, \<open>M\<close> anywhere inside an
  iteration, and \<open>F\<close> of whatever the loops return (also when the fuel is spent).
\<close>

lemma follow_loops_establish:
  fixes I M F :: "sd_call list \<Rightarrow> delivery list \<Rightarrow> bool"
  assumes m0: "\<And>tr ds. I tr ds \<Longrightarrow> M tr ds"
    and m1: "\<And>tr ds c. M tr ds \<Longrightarrow> quiet c \<or> c = sd_journal_next (sdJournal jour) \<Longrightarrow> M (tr @ [c]) ds"
    and f1: "\<And>tr ds. M tr ds \<Longrightarrow> F tr ds"
    and f2: "\<And>tr ds err. M tr ds \<Longrightarrow> F tr (ds @ [(None, Some err)])"
    and i1: "\<And>tr ds. I tr ds \<Longrightarrow> ret (L (tr @ [sd_journal_next (sdJournal jour)])) = 0
               \<Longrightarrow> I (tr @ [sd_journal_next (sdJournal jour)]) ds"
    and i2: "\<And>tr ds t. I tr ds \<Longrightarrow> I (tr @ [sd_journal_wait (sdJournal jour) t]) ds"
    and i3: "\<And>tr ds n e tr2. I tr ds \<Longrightarrow> 0 < ret (L (tr @ [sd_journal_next (sdJournal jour)]))
               \<Longrightarrow> ReadEntry n L jour (tr @ [sd_journal_next (sdJournal jour)]) = (Some (Inr e), tr2)
               \<Longrightarrow> I tr2 (ds @ [(Some e, None)])"
  shows "(I (trace w) (delivered w) \<longrightarrow>
            F (trace (snd (follow_loop n L jour h w))) (delivered (snd (follow_loop n L jour h w)))) \<and>
         (I (trace w) (delivered w) \<longrightarrow>
            F (trace (snd (follow_wait n L jour h w))) (delivered (snd (follow_wait n L jour h w))))"
proof (induction n arbitrary: w)
  case 0
  show ?case using m0 f1 by simp
next
  case (Suc n)
  let ?hd = "sdJournal jour"
  have exit: "F (trace (snd (deliver_exit h (None, Some e) w'))) (delivered (snd (deliver_exit h (None, Some e) w')))"
    if "M (trace w') (delivered w')" for e w'
    using deliver_exit_shape [of h "(None, Some e)" w'] f1 [OF that] f2 [OF that, of e] by auto
  have ext: "M (tr @ ext) ds" if "M tr ds" and "\<forall>c\<in>set ext. quiet c" for tr ds ext
    using that(2)
  proof (induction ext rule: rev_induct)
    case Nil
    show ?case using that(1) by simp
  next
    case (snoc c ext)
    then have "M (tr @ ext) ds" and "quiet c" by simp_all
    then have "M ((tr @ ext) @ [c]) ds" using m1 by blast
    then show ?case by simp
  qed
  have loop: "F (trace (snd (follow_loop (Suc n) L jour h w)))
                (delivered (snd (follow_loop (Suc n) L jour h w)))"
    if inv: "I (trace w) (delivered w)"
  proof -
    let ?c = "sd_journal_next ?hd"
    let ?tr1 = "trace w @ [?c]"
    let ?r = "ret (L ?tr1)"
    let ?w0 = "w\<lparr>trace := ?tr1\<rparr>"
    have M1: "M ?tr1 (delivered w)" using m1 [OF m0 [OF inv], of ?c] by simp
    consider (neg) "?r < 0" | (zero) "?r = 0" | (pos) "0 < ?r" by linarith
    then show ?thesis
    proof cases
      case neg
      then have "follow_loop (Suc n) L jour h w
          = deliver_exit h (None, Some (WrapError ''failed to move cursor to next entry''
               (WrapError ''failed to move to next entry'' (Errno_of_C ?r)))) ?w0"
        by (simp add: Next_def sd_invoke_def)
      then show ?thesis using exit [of ?w0] M1 by simp
    next
      case zero
      then have "follow_loop (Suc n) L jour h w = follow_wait n L jour h ?w0"
        by (simp add: Next_def sd_invoke_def)
      moreover have "I (trace ?w0) (delivered ?w0)" using i1 [OF inv] zero by simp
      ultimately show ?thesis using Suc.IH [of ?w0] by simp
    next
      case pos
      obtain b w1 where sel: "select_done ?w0 = (b, w1)" by (cases "select_done ?w0")
      with select_done_keeps [of ?w0] have t1: "trace w1 = ?tr1" and d1: "delivered w1 = delivered w"
        by simp_all
      show ?thesis
      proof (cases b)
        case True
        with pos sel have "follow_loop (Suc n) L jour h w
            = deliver_exit h (None, Some ErrFollowStopped) w1"
          by (simp add: Next_def sd_invoke_def)
        then show ?thesis using exit [of w1] M1 t1 d1 by simp
      next
        case False
        obtain res tr2 where rd: "ReadEntry n L jour ?tr1 = (res, tr2)"
          by (cases "ReadEntry n L jour ?tr1")
        from ReadEntry_quiet [of n L jour ?tr1] rd obtain x where
          "tr2 = ?tr1 @ x" and "\<forall>c\<in>set x. quiet c"
          by auto
        with M1 have M2: "M tr2 (delivered w)" using ext by blast
        let ?w2 = "w1\<lparr>trace := tr2\<rparr>"
        have M2': "M (trace ?w2) (delivered ?w2)" using M2 d1 by simp
        show ?thesis
        proof (cases res)
          case None
          with pos sel False rd t1 have "follow_loop (Suc n) L jour h w = (OutOfFuel, ?w2)"
            by (simp add: Next_def sd_invoke_def)
          then show ?thesis using f1 [OF M2'] by simp
        next
          case (Some v)
          show ?thesis
          proof (cases v)
            case (Inl e)
            with Some pos sel False rd t1 have "follow_loop (Suc n) L jour h w
                = deliver_exit h (None, Some (WrapError ''failed to read entry'' e)) ?w2"
              by (simp add: Next_def sd_invoke_def)
            then show ?thesis using exit [OF M2'] by simp
          next
            case (Inr e)
            show ?thesis
            proof (cases h)
              case None
              with Inr Some pos sel False rd t1 have "follow_loop (Suc n) L jour h w = (Panicked, ?w2)"
                by (simp add: Next_def sd_invoke_def call_handler_def)
              then show ?thesis using f1 [OF M2'] by simp
            next
              case (Some f)
              let ?w3 = "?w2\<lparr>delivered := delivered ?w2 @ [(Some e, None)]\<rparr>"
              from Some Inr \<open>res = Some v\<close> pos sel False rd t1
              have "follow_loop (Suc n) L jour h w = follow_loop n L jour h ?w3"
                by (simp add: Next_def sd_invoke_def call_handler_def)
              moreover have "I (trace ?w3) (delivered ?w3)"
                using i3 [OF inv pos, of n e tr2] rd Inr \<open>res = Some v\<close> d1 by simp
              ultimately show ?thesis using Suc.IH [of ?w3] by simp
            qed
          qed
        qed
      qed
    qed
  qed
  have wait: "F (trace (snd (follow_wait (Suc n) L jour h w)))
                (delivered (snd (follow_wait (Suc n) L jour h w)))"
    if inv: "I (trace w) (delivered w)"
  proof -
    obtain b w1 where sel: "select_done w = (b, w1)" by (cases "select_done w")
    with select_done_keeps [of w] have t1: "trace w1 = trace w" and d1: "delivered w1 = delivered w"
      by simp_all
    have M0: "M (trace w1) (delivered w1)" using m0 [OF inv] t1 d1 by simp
    show ?thesis
    proof (cases b)
      case True
      with sel have "follow_wait (Suc n) L jour h w = deliver_exit h (None, Some ErrFollowStopped) w1"
        by simp
      then show ?thesis using exit [OF M0] by simp
    next
      case False
      let ?c = "sd_journal_wait ?hd (Wait_native_timeout waitTimeout)"
      let ?tr1 = "trace w @ [?c]"
      let ?r = "ret (L ?tr1)"
      let ?w2 = "w1\<lparr>trace := ?tr1\<rparr>"
      have I2: "I (trace ?w2) (delivered ?w2)" using i2 [OF inv] d1 by simp
      show ?thesis
      proof (cases "?r < 0")
        case True
        with sel False t1 have "follow_wait (Suc n) L jour h w
            = deliver_exit h (None, Some (WrapError ''failed to wait for new entries''
                 (WrapError ''failed to wait for journal change'' (Errno_of_C ?r)))) ?w2"
          by (simp add: Wait_def sd_invoke_def Let_def)
        then show ?thesis using exit [of ?w2] m0 [OF I2] by simp
      next
        case nonneg: False
        show ?thesis
        proof (cases "wakeup_of_ret ?r = NoOperation")
          case True
          with nonneg sel False t1 have "follow_wait (Suc n) L jour h w = follow_wait n L jour h ?w2"
            by (simp add: Wait_def sd_invoke_def Let_def)
          then show ?thesis using Suc.IH [of ?w2] I2 by simp
        next
          case woke: False
          with nonneg sel False t1 have "follow_wait (Suc n) L jour h w = follow_loop n L jour h ?w2"
            by (simp add: Wait_def sd_invoke_def Let_def)
          then show ?thesis using Suc.IH [of ?w2] I2 by simp
        qed
      qed
    qed
  qed
  from loop wait show ?case by blast
qed

section \<open>Stopping\<close>

lemma closes_snoc: "closes (tr @ [c]) = (if is_close c then Suc (closes tr) else closes tr)"
  by (simp add: closes_def)

lemma quiet_not_close: "quiet c \<Longrightarrow> \<not> is_close c"
  by (cases c) (simp_all add: quiet_def is_close_def)

lemma closes_quiet: "\<forall>c\<in>set ext. quiet c \<Longrightarrow> closes (tr @ ext) = closes tr"
  by (induction ext rule: rev_induct) (simp_all add: closes_def quiet_not_close)

lemma orderly_entries: "\<forall>d\<in>set ds. snd d = None \<Longrightarrow> orderly ds"
  by (auto simp: orderly_def list_all_iff dest: in_set_butlastD)

lemma orderly_snoc: "\<forall>d\<in>set ds. snd d = None \<Longrightarrow> orderly (ds @ [d])"
  by (simp add: orderly_def list_all_iff)

lemma orderly_stopped_count: "orderly ds \<Longrightarrow> stopped_count ds \<le> 1"
proof (cases ds rule: rev_cases)
  case Nil
  then show ?thesis by (simp add: stopped_count_def)
next
  case (snoc xs x)
  assume "orderly ds"
  with snoc have "\<forall>d\<in>set xs. snd d = None" by (simp add: orderly_def list_all_iff)
  then have "filter (\<lambda>d. case d of (None, Some e) \<Rightarrow> e = ErrFollowStopped | _ \<Rightarrow> False) xs = []"
    by (auto simp: filter_empty_conv split: option.splits)
  with snoc show ?thesis by (simp add: stopped_count_def)
qed

lemma follow_loop_orderly:
  assumes "\<forall>d\<in>set (delivered w). snd d = None"
  shows "orderly (delivered (snd (follow_loop n L jour h w))) \<and>
         closes (trace (snd (follow_loop n L jour h w))) = closes (trace w)"
proof -
  define I where "I = (\<lambda>tr ds. (\<forall>d\<in>set ds. snd (d::delivery) = None) \<and> closes tr = closes (trace w))"
  define F where "F = (\<lambda>tr ds. orderly ds \<and> closes tr = closes (trace w))"
  have nc: "\<not> is_close c" if "quiet c \<or> c = sd_journal_next (sdJournal jour)" for c
    using that quiet_not_close [of c] by (auto simp: is_close_def)
  have m0: "\<And>tr ds. I tr ds \<Longrightarrow> I tr ds" by simp
  have m1: "\<And>tr ds c. I tr ds \<Longrightarrow> quiet c \<or> c = sd_journal_next (sdJournal jour) \<Longrightarrow> I (tr @ [c]) ds"
    using nc by (simp add: I_def closes_snoc)
  have f1: "\<And>tr ds. I tr ds \<Longrightarrow> F tr ds" by (simp add: I_def F_def orderly_entries)
  have f2: "\<And>tr ds err. I tr ds \<Longrightarrow> F tr (ds @ [(None, Some err)])"
    by (simp add: I_def F_def orderly_snoc)
  have i1: "\<And>tr ds. I tr ds \<Longrightarrow> ret (L (tr @ [sd_journal_next (sdJournal jour)])) = 0
               \<Longrightarrow> I (tr @ [sd_journal_next (sdJournal jour)]) ds"
    by (simp add: I_def closes_snoc is_close_def)
  have i2: "\<And>tr ds t. I tr ds \<Longrightarrow> I (tr @ [sd_journal_wait (sdJournal jour) t]) ds"
    by (simp add: I_def closes_snoc is_close_def)
  have i3: "I tr2 (ds @ [(Some e, None)])"
    if "I tr ds" and "0 < ret (L (tr @ [sd_journal_next (sdJournal jour)]))"
      and "ReadEntry k L jour (tr @ [sd_journal_next (sdJournal jour)]) = (Some (Inr e), tr2)"
    for tr ds k e tr2
  proof -
    from ReadEntry_quiet [of k L jour "tr @ [sd_journal_next (sdJournal jour)]"] that(3)
    obtain x where "tr2 = (tr @ [sd_journal_next (sdJournal jour)]) @ x" and "\<forall>c\<in>set x. quiet c"
      by auto
    then have "closes tr2 = closes (tr @ [sd_journal_next (sdJournal jour)])"
      using closes_quiet by blast
    with that(1) show ?thesis by (simp add: I_def closes_snoc is_close_def)
  qed
  have "I (trace w) (delivered w) \<longrightarrow>
          F (trace (snd (follow_loop n L jour h w))) (delivered (snd (follow_loop n L jour h w)))"
  proof (rule conjunct1)
    show "(I (trace w) (delivered w) \<longrightarrow>
            F (trace (snd (follow_loop n L jour h w))) (delivered (snd (follow_loop n L jour h w)))) \<and>
          (I (trace w) (delivered w) \<longrightarrow>
            F (trace (snd (follow_wait n L jour h w))) (delivered (snd (follow_wait n L jour h w))))"
      by (rule follow_loops_establish [where I = I and M = I and F = F and L = L and jour = jour])
         (fact m0 m1 f1 f2 i1 i2 i3)+
  qed
  with assms show ?thesis by (simp add: I_def F_def)
qed

lemma add_exprs_quiet:
  "\<exists>ext. snd (add_exprs L h es tr) = tr @ ext \<and> (\<forall>c\<in>set ext. quiet c)"
proof (induction es arbitrary: tr)
  case Nil
  then show ?case by simp
next
  case (Cons e es)
  obtain r tr1 where a: "add_expr L h e tr = (r, tr1)" by (cases "add_expr L h e tr")
  with add_expr_trace [of L h e tr] have tr1: "tr1 = tr @ node_calls h e" by simp
  have q: "\<forall>c\<in>set (node_calls h e). quiet c"
    by (cases "op e") (auto simp: node_calls_def quiet_def)
  show ?case
  proof (cases "r < 0")
    case True
    with a tr1 q show ?thesis by auto
  next
    case False
    from Cons.IH [of tr1] obtain ext where
      "snd (add_exprs L h es tr1) = tr1 @ ext" and "\<forall>c\<in>set ext. quiet c"
      by blast
    with False a tr1 q show ?thesis
      by (intro exI [of _ "node_calls h e @ ext"]) auto
  qed
qed

lemma AddMatch_quiet:
  "\<exists>ext. snd (snd (AddMatch L j m tr)) = tr @ ext \<and> (\<forall>c\<in>set ext. quiet c) \<and>
         sdJournal (fst (snd (AddMatch L j m tr))) = sdJournal j"
proof (cases m)
  case None
  then show ?thesis by (simp add: AddMatch_def)
next
  case (Some mm)
  obtain r tr1 where a: "add_exprs L (sdJournal j) (expr mm) tr = (r, tr1)"
    by (cases "add_exprs L (sdJournal j) (expr mm) tr")
  with add_exprs_quiet [of L "sdJournal j" "expr mm" tr] obtain ext where
    "tr1 = tr @ ext" and "\<forall>c\<in>set ext. quiet c"
    by auto
  with a Some show ?thesis by (cases r) (auto simp: AddMatch_def)
qed

lemma add_matches_quiet:
  "\<exists>ext. snd (snd (add_matches L j ms tr)) = tr @ ext \<and> (\<forall>c\<in>set ext. quiet c) \<and>
         sdJournal (fst (snd (add_matches L j ms tr))) = sdJournal j"
proof (induction ms arbitrary: j tr)
  case Nil
  then show ?case by simp
next
  case (Cons m ms)
  obtain r j1 tr1 where a: "AddMatch L j (Some m) tr = (r, j1, tr1)"
    by (cases "AddMatch L j (Some m) tr") auto
  with AddMatch_quiet [of L j "Some m" tr] obtain ext where
    e: "tr1 = tr @ ext" "\<forall>c\<in>set ext. quiet c" "sdJournal j1 = sdJournal j"
    by auto
  show ?case
  proof (cases r)
    case (Some err)
    with a e show ?thesis by auto
  next
    case None
    from Cons.IH [of j1 tr1] obtain ext' where
      "snd (snd (add_matches L j1 ms tr1)) = tr1 @ ext'" "\<forall>c\<in>set ext'. quiet c"
      "sdJournal (fst (snd (add_matches L j1 ms tr1))) = sdJournal j1"
      by blast
    with None a e show ?thesis
      by (intro exI [of _ "ext @ ext'"]) auto
  qed
qed

lemma deferred_Close_shape:
  "delivered (snd (deferred_Close L jour res)) = delivered (snd res) \<and>
   closes (trace (snd (deferred_Close L jour res))) \<le> Suc (closes (trace (snd res)))"
  by (cases res; cases "fst res")
     (auto simp: deferred_Close_def Close_def sd_invoke_def closes_snoc)

lemma followJournal_orderly:
  assumes fresh: "\<forall>d\<in>set (delivered w). snd d = None"
  shows "orderly (delivered (snd (followJournal fuel L h cursor ms eof w))) \<and>
         closes (trace (snd (followJournal fuel L h cursor ms eof w))) \<le> Suc (closes (trace w))"
proof -
  define G where "G = (\<lambda>res :: status \<times> worker_state.
      orderly (delivered (snd res)) \<and> closes (trace (snd res)) = closes (trace w))"
  have exit: "G (deliver_exit h (None, Some e) (w\<lparr>trace := tr\<rparr>))"
    if "closes tr = closes (trace w)" for e tr
    using that fresh deliver_exit_shape [of h "(None, Some e)" "w\<lparr>trace := tr\<rparr>"]
    by (auto simp: G_def orderly_entries orderly_snoc)
  have loop: "G (follow_loop fuel L jour h (w\<lparr>trace := tr\<rparr>))"
    if "closes tr = closes (trace w)" for jour tr
    using that fresh follow_loop_orderly [of "w\<lparr>trace := tr\<rparr>" fuel L jour h]
    by (simp add: G_def)
  have closed: "orderly (delivered (snd (deferred_Close L jour res))) \<and>
      closes (trace (snd (deferred_Close L jour res))) \<le> Suc (closes (trace w))"
    if "G res" for jour res
    using that deferred_Close_shape [of L jour res] by (simp add: G_def)
  let ?tr1 = "trace w @ [sd_journal_open]"
  have c1: "closes ?tr1 = closes (trace w)" by (simp add: closes_snoc is_close_def)
  show ?thesis
  proof (cases "ret (L ?tr1) \<noteq> 0")
    case True
    then have "followJournal fuel L h cursor ms eof w
        = deliver_exit h (None, Some (WrapError ''failed to open journal'' (Errno_of_int (ret (L ?tr1)))))
            (w\<lparr>trace := ?tr1\<rparr>)"
      by (simp add: followJournal_def Open_def sd_invoke_def)
    with exit [OF c1] show ?thesis by (simp add: G_def)
  next
    case False
    let ?j0 = "\<lparr>sdJournal = out_handle (L ?tr1), matches = []\<rparr>"
    obtain r jour tr2 where am: "add_matches L ?j0 ms ?tr1 = (r, jour, tr2)"
      by (cases "add_matches L ?j0 ms ?tr1") auto
    with add_matches_quiet [of L ?j0 ms ?tr1] obtain ext where
      t2: "tr2 = ?tr1 @ ext" and qe: "\<forall>c\<in>set ext. quiet c"
      by auto
    from closes_quiet [OF qe, of ?tr1] have c2: "closes tr2 = closes (trace w)"
      unfolding t2 using c1 by simp
    let ?tr3 = "tr2 @ [sd_journal_seek_cursor (sdJournal jour) (CString cursor)]"
    have c3: "closes ?tr3 = closes (trace w)" using c2 by (simp add: closes_def is_close_def)
    let ?tr4 = "?tr3 @ [sd_journal_next (sdJournal jour)]"
    have c4: "closes ?tr4 = closes (trace w)" using c2 by (simp add: closes_def is_close_def)
    have "\<exists>res. G res \<and> followJournal fuel L h cursor ms eof w = deferred_Close L ?j0 res"
    proof (cases r)
      case (Some e)
      with False am have "followJournal fuel L h cursor ms eof w
          = deferred_Close L ?j0 (deliver_exit h (None, Some e) (w\<lparr>trace := tr2\<rparr>))"
        by (simp add: followJournal_def Open_def sd_invoke_def)
      with exit [OF c2] show ?thesis by blast
    next
      case None
      show ?thesis
      proof (cases "ret (L ?tr3) \<noteq> 0")
        case True
        with None False am have "followJournal fuel L h cursor ms eof w
            = deferred_Close L ?j0
                (deliver_exit h (None, Some (WrapError ''failed to seek to cursor''
                                               (Errno_of_int (ret (L ?tr3))))) (w\<lparr>trace := ?tr3\<rparr>))"
          by (simp add: followJournal_def Open_def SeekCursor_def sd_invoke_def)
        with exit [OF c3] show ?thesis by blast
      next
        case seek_ok: False
        show ?thesis
        proof (cases eof)
          case False
          with seek_ok None \<open>\<not> ret (L ?tr1) \<noteq> 0\<close> am
          have "followJournal fuel L h cursor ms eof w
              = deferred_Close L ?j0 (follow_loop fuel L jour h (w\<lparr>trace := ?tr3\<rparr>))"
            by (simp add: followJournal_def Open_def SeekCursor_def sd_invoke_def)
          with loop [OF c3] show ?thesis by blast
        next
          case True
          show ?thesis
          proof (cases "ret (L ?tr4) < 0")
            case neg: True
            with True seek_ok None \<open>\<not> ret (L ?tr1) \<noteq> 0\<close> am
            have "followJournal fuel L h cursor ms eof w
                = deferred_Close L ?j0
                    (deliver_exit h (None, Some (WrapError ''failed move cursor to next position''
                        (WrapError ''failed to move to next entry'' (Errno_of_C (ret (L ?tr4))))))
                      (w\<lparr>trace := ?tr4\<rparr>))"
              by (simp add: followJournal_def Open_def SeekCursor_def Next_def sd_invoke_def)
            with exit [OF c4] show ?thesis by blast
          next
            case nonneg: False
            with True seek_ok None \<open>\<not> ret (L ?tr1) \<noteq> 0\<close> am
            have "followJournal fuel L h cursor ms eof w
                = deferred_Close L ?j0 (follow_loop fuel L jour h (w\<lparr>trace := ?tr4\<rparr>))"
              by (simp add: followJournal_def Open_def SeekCursor_def Next_def sd_invoke_def)
            with loop [OF c4] show ?thesis by blast
          qed
        qed
      qed
    qed
    then obtain res where "G res" and "followJournal fuel L h cursor ms eof w = deferred_Close L ?j0 res"
      by blast
    with closed [of res ?j0] show ?thesis by simp
  qed
qed

lemma FollowStop_first: "FollowStop new_stop = Some \<lparr>once_done = True, done_chan = [True]\<rparr>"
  by (simp add: FollowStop_def new_stop_def chan_send_def)

lemma owner_stop_again:
  "(owner_stop ^^ Suc n) new_stop = \<lparr>once_done = True, done_chan = [True]\<rparr>"
proof (induction n)
  case 0
  show ?case by (simp add: owner_stop_def FollowStop_first)
next
  case (Suc n)
  have "(owner_stop ^^ Suc (Suc n)) new_stop = owner_stop ((owner_stop ^^ Suc n) new_stop)"
    by simp
  also have "\<dots> = owner_stop \<lparr>once_done = True, done_chan = [True]\<rparr>"
    by (simp only: Suc.IH)
  also have "\<dots> = \<lparr>once_done = True, done_chan = [True]\<rparr>"
    by (simp add: owner_stop_def FollowStop_def)
  finally show ?case .
qed

text \<open>
  C5: the first call of the stop function puts one value on the channel; every later
  call, whatever the channel holds by then, returns at once and changes nothing, so any
  number of calls leaves what one call leaves, and none blocks. The worker, under every
  library and every schedule of stop calls, delivers the stopped notification at most
  once: only its last delivery can carry an error at all, and it closes its connection at
  most once.
\<close>

theorem FollowStop_idempotent:
  "FollowStop new_stop = Some \<lparr>once_done = True, done_chan = [True]\<rparr> \<and>
   (once_done s \<longrightarrow> FollowStop s = Some s) \<and>
   (owner_stop ^^ Suc n) new_stop = \<lparr>once_done = True, done_chan = [True]\<rparr> \<and>
   stopped_count (delivered (snd (followJournal fuel L h cursor ms eof
        \<lparr>trace = tr, shared = new_stop, sched = sc, delivered = []\<rparr>))) \<le> 1 \<and>
   orderly (delivered (snd (followJournal fuel L h cursor ms eof
        \<lparr>trace = tr, shared = new_stop, sched = sc, delivered = []\<rparr>))) \<and>
   closes (trace (snd (followJournal fuel L h cursor ms eof
        \<lparr>trace = tr, shared = new_stop, sched = sc, delivered = []\<rparr>))) \<le> Suc (closes tr)"
proof -
  let ?w = "\<lparr>trace = tr, shared = new_stop, sched = sc, delivered = []\<rparr>"
  have a: "once_done s \<longrightarrow> FollowStop s = Some s" by (simp add: FollowStop_def)
  have "\<forall>d\<in>set (delivered ?w). snd d = None" by simp
  from followJournal_orderly [OF this, of fuel L h cursor ms eof]
  have o: "orderly (delivered (snd (followJournal fuel L h cursor ms eof ?w)))"
    and c: "closes (trace (snd (followJournal fuel L h cursor ms eof ?w))) \<le> Suc (closes tr)"
    by simp_all
  from o have s: "stopped_count (delivered (snd (followJournal fuel L h cursor ms eof ?w))) \<le> 1"
    by (rule orderly_stopped_count)
  from FollowStop_first a owner_stop_again [of n] s o c show ?thesis by blast
qed

theorem FollowStop_idempotent_witness:
  "FollowStop \<lparr>once_done = True, done_chan = []\<rparr> = Some \<lparr>once_done = True, done_chan = []\<rparr> \<and>
   (owner_stop ^^ 2) new_stop = \<lparr>once_done = True, done_chan = [True]\<rparr> \<and>
   stopped_count (delivered (snd (followJournal 3 sd_quiet a_handler ''c'' [] True (fresh_worker [2])))) = 1 \<and>
   closes (trace (snd (followJournal 3 sd_quiet a_handler ''c'' [] True (fresh_worker [2])))) = 1"
proof -
  note t = FollowStop_idempotent
      [where s = "\<lparr>once_done = True, done_chan = []\<rparr>" and n = 1 and fuel = 3 and L = sd_quiet
         and h = a_handler and cursor = "''c''" and ms = "[]" and eof = True and tr = "[]"
         and sc = "[2]"]
  have s: "once_done \<lparr>once_done = True, done_chan = []\<rparr>" by simp
  from t s have a: "FollowStop \<lparr>once_done = True, done_chan = []\<rparr>
      = Some \<lparr>once_done = True, done_chan = []\<rparr>"
    by blast
  from t have b: "(owner_stop ^^ 2) new_stop = \<lparr>once_done = True, done_chan = [True]\<rparr>"
    by (simp add: numeral_2_eq_2)
  have c: "stopped_count (delivered (snd (followJournal 3 sd_quiet a_handler ''c'' [] True (fresh_worker [2])))) = 1"
    by code_simp
  have d: "closes (trace (snd (followJournal 3 sd_quiet a_handler ''c'' [] True (fresh_worker [2])))) = 1"
    by code_simp
  from a b c d show ?thesis by blast
qed

section \<open>Following from the end\<close>

lemma ref_replay_append:
  "ref_replay S t s (xs @ ys) = ref_replay S (t + length xs) (ref_replay S t s xs) ys"
  by (induction xs arbitrary: t s) simp_all

lemma state_after_snoc:
  "state_after S (tr @ [c]) = snd (ref_step S (length tr) (state_after S tr) c)"
  by (simp add: state_after_def ref_replay_append)

lemma sd_ref_snoc:
  "sd_ref S (tr @ [c]) = fst (ref_step S (length tr) (state_after S tr) c)"
  by (simp add: sd_ref_def)

lemma quiet_keeps_pos: "quiet c \<Longrightarrow> pos (snd (ref_step S t s c)) = pos s"
  by (cases c) (auto simp: quiet_def split: position.splits option.splits)

lemma pos_after_quiet:
  "\<forall>c\<in>set ext. quiet c \<Longrightarrow> pos (state_after S (tr @ ext)) = pos (state_after S tr)"
proof (induction ext rule: rev_induct)
  case Nil
  then show ?case by simp
next
  case (snoc c ext)
  then have "quiet c" and ih: "pos (state_after S (tr @ ext)) = pos (state_after S tr)"
    by simp_all
  have "pos (state_after S ((tr @ ext) @ [c])) = pos (state_after S (tr @ ext))"
    unfolding state_after_snoc using \<open>quiet c\<close> by (rule quiet_keeps_pos)
  with ih show ?case by simp
qed

lemma CString_cursor_of: "CString (cursor_of i) = cursor_of i"
  by (simp add: CString_def cursor_of_def)

lemma index_of_cursor_of: "index_of (cursor_of i) = Some i"
  by (simp add: index_of_def cursor_of_def list_all_iff)

lemma delivered_cursors_snoc_error:
  "delivered_cursors (ds @ [(None, x)]) = delivered_cursors ds"
  by (simp add: delivered_cursors_def List.map_filter_def)

lemma delivered_cursors_snoc_entry:
  "delivered_cursors (ds @ [(Some e, x)]) = delivered_cursors ds @ [Cursor_f e]"
  by (simp add: delivered_cursors_def List.map_filter_def)

lemma ReadEntry_Inr_cursor:
  assumes "ReadEntry n L j tr = (Some (Inr e), tr2)"
  shows "Cursor_f e = out_str (L (tr @ [sd_journal_get_realtime_usec (sdJournal j),
                                        sd_journal_get_monotonic_usec (sdJournal j),
                                        sd_journal_get_cursor (sdJournal j)]))"
proof -
  from assms have ok: "fst (ReadEntry n L j tr) = Some (Inr e)" by simp
  note ge = ReadEntry_Inr_early [OF ok]
  from ge have a: "0 \<le> ret (L (tr @ [sd_journal_get_realtime_usec (sdJournal j)]))"
    and b: "0 \<le> ret (L (tr @ [sd_journal_get_realtime_usec (sdJournal j),
                             sd_journal_get_monotonic_usec (sdJournal j)]))"
    and c: "0 \<le> ret (L (tr @ [sd_journal_get_realtime_usec (sdJournal j),
                             sd_journal_get_monotonic_usec (sdJournal j),
                             sd_journal_get_cursor (sdJournal j)]))"
    by blast+
  obtain res tr5 where r: "enumerate_fields n L (sdJournal j) Map.empty
             (tr @ [sd_journal_get_realtime_usec (sdJournal j),
                    sd_journal_get_monotonic_usec (sdJournal j),
                    sd_journal_get_cursor (sdJournal j),
                    sd_journal_restart_data (sdJournal j)]) = (res, tr5)"
    by (cases "enumerate_fields n L (sdJournal j) Map.empty
             (tr @ [sd_journal_get_realtime_usec (sdJournal j),
                    sd_journal_get_monotonic_usec (sdJournal j),
                    sd_journal_get_cursor (sdJournal j),
                    sd_journal_restart_data (sdJournal j)])")
  from assms show ?thesis
    unfolding ReadEntry_unfold [OF a b c] r
    by (auto split: option.splits sum.splits)
qed

lemma follow_loop_ref_cursors:
  assumes "delivered_cursors (delivered w) = map cursor_of [c0..<c0 + k0]"
    and "next_index (pos (state_after S (trace w))) = c0 + k0"
  shows "\<exists>k. delivered_cursors (delivered (snd (follow_loop n (sd_ref S) jour h w)))
               = map cursor_of [c0..<c0 + k]"
proof -
  let ?nx = "sd_journal_next (sdJournal jour)"
  define I where "I = (\<lambda>tr (ds :: delivery list).
      \<exists>k. delivered_cursors ds = map cursor_of [c0..<c0 + k] \<and>
          next_index (pos (state_after S tr)) = c0 + k)"
  define M where "M = (\<lambda>(tr :: sd_call list) (ds :: delivery list).
      \<exists>k. delivered_cursors ds = map cursor_of [c0..<c0 + k])"
  have m0: "\<And>tr ds. I tr ds \<Longrightarrow> M tr ds" by (auto simp: I_def M_def)
  have m1: "\<And>tr ds c. M tr ds \<Longrightarrow> quiet c \<or> c = ?nx \<Longrightarrow> M (tr @ [c]) ds"
    by (simp add: M_def)
  have f1: "\<And>tr ds. M tr ds \<Longrightarrow> M tr ds" by simp
  have f2: "\<And>tr ds err. M tr ds \<Longrightarrow> M tr (ds @ [(None, Some err)])"
    by (simp add: M_def delivered_cursors_snoc_error)
  have i1: "I (tr @ [?nx]) ds" if "I tr ds" and "ret (sd_ref S (tr @ [?nx])) = 0" for tr ds
  proof -
    from that(2) have "\<not> next_index (pos (state_after S tr)) < visible S (length tr)"
      by (auto simp: sd_ref_snoc answer_def split: if_splits)
    then have "state_after S (tr @ [?nx]) = state_after S tr"
      by (simp add: state_after_snoc)
    with that(1) show ?thesis by (simp add: I_def)
  qed
  have i2: "\<And>tr ds t. I tr ds \<Longrightarrow> I (tr @ [sd_journal_wait (sdJournal jour) t]) ds"
    by (simp add: I_def state_after_snoc)
  have i3: "I tr2 (ds @ [(Some e, None)])"
    if inv: "I tr ds" and pos: "0 < ret (sd_ref S (tr @ [?nx]))"
      and rd: "ReadEntry m (sd_ref S) jour (tr @ [?nx]) = (Some (Inr e), tr2)"
    for tr ds m e tr2
  proof -
    from inv obtain k where
      ds: "delivered_cursors ds = map cursor_of [c0..<c0 + k]" and
      nx: "next_index (pos (state_after S tr)) = c0 + k"
      by (auto simp: I_def)
    from pos have "next_index (pos (state_after S tr)) < visible S (length tr)"
      by (auto simp: sd_ref_snoc answer_def split: if_splits)
    then have at: "pos (state_after S (tr @ [?nx])) = At (c0 + k)"
      using nx by (simp add: state_after_snoc)
    let ?rt = "sd_journal_get_realtime_usec (sdJournal jour)"
    let ?mo = "sd_journal_get_monotonic_usec (sdJournal jour)"
    let ?cu = "sd_journal_get_cursor (sdJournal jour)"
    have "pos (state_after S ((tr @ [?nx]) @ [?rt, ?mo])) = pos (state_after S (tr @ [?nx]))"
      by (rule pos_after_quiet) (simp add: quiet_def)
    with at have at2: "pos (state_after S ((tr @ [?nx]) @ [?rt, ?mo])) = At (c0 + k)" by simp
    have "Cursor_f e = out_str (sd_ref S (((tr @ [?nx]) @ [?rt, ?mo]) @ [?cu]))"
      using ReadEntry_Inr_cursor [OF rd] by simp
    also have "\<dots> = cursor_of (c0 + k)"
      unfolding sd_ref_snoc using at2 by (simp add: answer_def)
    finally have cur: "Cursor_f e = cursor_of (c0 + k)" .
    from ReadEntry_quiet [of m "sd_ref S" jour "tr @ [?nx]"] rd obtain x where
      t2: "tr2 = (tr @ [?nx]) @ x" and qx: "\<forall>c\<in>set x. quiet c"
      by auto
    from pos_after_quiet [OF qx, of S "tr @ [?nx]"] at
    have at3: "pos (state_after S tr2) = At (c0 + k)" unfolding t2 by simp
    have "delivered_cursors (ds @ [(Some e, None)]) = map cursor_of [c0..<c0 + Suc k]"
      by (simp add: delivered_cursors_snoc_entry ds cur)
    moreover have "next_index (pos (state_after S tr2)) = c0 + Suc k"
      using at3 by simp
    ultimately show ?thesis unfolding I_def by blast
  qed
  have "I (trace w) (delivered w) \<longrightarrow>
          M (trace (snd (follow_loop n (sd_ref S) jour h w)))
            (delivered (snd (follow_loop n (sd_ref S) jour h w)))"
  proof (rule conjunct1)
    show "(I (trace w) (delivered w) \<longrightarrow>
            M (trace (snd (follow_loop n (sd_ref S) jour h w)))
              (delivered (snd (follow_loop n (sd_ref S) jour h w)))) \<and>
          (I (trace w) (delivered w) \<longrightarrow>
            M (trace (snd (follow_wait n (sd_ref S) jour h w)))
              (delivered (snd (follow_wait n (sd_ref S) jour h w))))"
      by (rule follow_loops_establish [where I = I and M = M and F = M and L = "sd_ref S"
                                         and jour = jour])
         (fact m0 m1 f1 f2 i1 i2 i3)+
  qed
  moreover have "I (trace w) (delivered w)" using assms unfolding I_def by blast
  ultimately show ?thesis by (simp add: M_def)
qed

lemma followJournal_started:
  assumes "ret (L (trace w @ [sd_journal_open])) = 0"
    and "add_matches L \<lparr>sdJournal = out_handle (L (trace w @ [sd_journal_open])), matches = []\<rparr> ms
           (trace w @ [sd_journal_open]) = (None, jour, tr2)"
    and "ret (L (tr2 @ [sd_journal_seek_cursor (sdJournal jour) (CString cursor)])) = 0"
  shows "followJournal fuel L h cursor ms False w
           = deferred_Close L \<lparr>sdJournal = out_handle (L (trace w @ [sd_journal_open])), matches = []\<rparr>
               (follow_loop fuel L jour h
                  (w\<lparr>trace := tr2 @ [sd_journal_seek_cursor (sdJournal jour) (CString cursor)]\<rparr>))"
    and "0 \<le> ret (L (tr2 @ [sd_journal_seek_cursor (sdJournal jour) (CString cursor),
                              sd_journal_next (sdJournal jour)])) \<Longrightarrow>
         followJournal fuel L h cursor ms True w
           = deferred_Close L \<lparr>sdJournal = out_handle (L (trace w @ [sd_journal_open])), matches = []\<rparr>
               (follow_loop fuel L jour h
                  (w\<lparr>trace := tr2 @ [sd_journal_seek_cursor (sdJournal jour) (CString cursor),
                                      sd_journal_next (sdJournal jour)]\<rparr>))"
  using assms
  by (simp_all add: followJournal_def Open_def SeekCursor_def Next_def sd_invoke_def)

lemma deferred_Close_delivered:
  "delivered (snd (deferred_Close L jour res)) = delivered (snd res)"
  using deferred_Close_shape [of L jour res] by simp

lemma followJournal_ref_cursors:
  assumes fresh: "delivered_cursors (delivered w) = []"
    and there: "eof \<longrightarrow> (\<forall>t. c < visible S t)"
  shows "\<exists>k. delivered_cursors (delivered (snd (followJournal fuel (sd_ref S) h (cursor_of c) ms eof w)))
               = map cursor_of [(if eof then Suc c else c)..<(if eof then Suc c else c) + k]"
proof -
  let ?c0 = "if eof then Suc c else c"
  let ?L = "sd_ref S"
  define G where "G = (\<lambda>res :: status \<times> worker_state.
      \<exists>k. delivered_cursors (delivered (snd res)) = map cursor_of [?c0..<?c0 + k])"
  have exit: "G (deliver_exit h (None, Some e) (w\<lparr>trace := tr\<rparr>))" for e tr
  proof -
    have "delivered_cursors (delivered (snd (deliver_exit h (None, Some e) (w\<lparr>trace := tr\<rparr>)))) = []"
      using fresh deliver_exit_shape [of h "(None, Some e)" "w\<lparr>trace := tr\<rparr>"]
      by (auto simp: delivered_cursors_snoc_error)
    then have "delivered_cursors (delivered (snd (deliver_exit h (None, Some e) (w\<lparr>trace := tr\<rparr>))))
        = map cursor_of [?c0..<?c0 + 0]"
      by simp
    then show ?thesis unfolding G_def by blast
  qed
  have closed: "\<exists>k. delivered_cursors (delivered (snd (deferred_Close ?L jour res)))
      = map cursor_of [?c0..<?c0 + k]"
    if "G res" for jour res
    using that by (simp add: G_def deferred_Close_delivered)
  let ?tr1 = "trace w @ [sd_journal_open]"
  have open_ok: "ret (?L ?tr1) = 0" and hd1: "out_handle (?L ?tr1) = 1"
    by (simp_all add: sd_ref_snoc answer_def)
  have p1: "pos (state_after S ?tr1) = Unset" by (simp add: state_after_snoc)
  let ?j0 = "\<lparr>sdJournal = out_handle (?L ?tr1), matches = []\<rparr>"
  obtain r jour tr2 where am: "add_matches ?L ?j0 ms ?tr1 = (r, jour, tr2)"
    by (cases "add_matches ?L ?j0 ms ?tr1") auto
  with add_matches_quiet [of ?L ?j0 ms ?tr1] obtain ext where
    t2: "tr2 = ?tr1 @ ext" and qe: "\<forall>c\<in>set ext. quiet c"
    by auto
  let ?sk = "sd_journal_seek_cursor (sdJournal jour) (CString (cursor_of c))"
  let ?nx = "sd_journal_next (sdJournal jour)"
  have seek_ok: "ret (?L (tr2 @ [?sk])) = 0"
    by (simp add: sd_ref_snoc index_of_cursor_of CString_cursor_of answer_def)
  have p3: "pos (state_after S (tr2 @ [?sk])) = Sought c"
    by (simp add: state_after_snoc index_of_cursor_of CString_cursor_of)
  have "\<exists>res. G res \<and> followJournal fuel ?L h (cursor_of c) ms eof w = deferred_Close ?L ?j0 res"
  proof (cases r)
    case (Some e)
    with open_ok am have "followJournal fuel ?L h (cursor_of c) ms eof w
        = deferred_Close ?L ?j0 (deliver_exit h (None, Some e) (w\<lparr>trace := tr2\<rparr>))"
      by (simp add: followJournal_def Open_def sd_invoke_def)
    with exit show ?thesis by blast
  next
    case None
    note am' = am [unfolded None]
    show ?thesis
    proof (cases eof)
      case False
      let ?w3 = "w\<lparr>trace := tr2 @ [?sk]\<rparr>"
      have run: "followJournal fuel ?L h (cursor_of c) ms eof w
          = deferred_Close ?L ?j0 (follow_loop fuel ?L jour h ?w3)"
        using followJournal_started(1) [OF open_ok am' seek_ok] False by simp
      have "delivered_cursors (delivered ?w3) = map cursor_of [c..<c + 0]" using fresh by simp
      moreover have "next_index (pos (state_after S (trace ?w3))) = c + 0" using p3 by simp
      ultimately have "\<exists>k. delivered_cursors (delivered (snd (follow_loop fuel ?L jour h ?w3)))
               = map cursor_of [c..<c + k]"
        by (rule follow_loop_ref_cursors)
      with False have "G (follow_loop fuel ?L jour h ?w3)" by (simp add: G_def)
      with run show ?thesis by blast
    next
      case True
      let ?tr4 = "tr2 @ [?sk, ?nx]"
      let ?w4 = "w\<lparr>trace := ?tr4\<rparr>"
      from True there have vis: "c < visible S (length (tr2 @ [?sk]))" by blast
      have n4: "?L ?tr4 = answer 1"
        using sd_ref_snoc [of S "tr2 @ [?sk]" ?nx] p3 vis by simp
      have p4: "pos (state_after S ?tr4) = At c"
        using state_after_snoc [of S "tr2 @ [?sk]" ?nx] p3 vis by simp
      have "0 \<le> ret (?L ?tr4)" by (simp add: n4 answer_def)
      from followJournal_started(2) [OF open_ok am' seek_ok this] True
      have run: "followJournal fuel ?L h (cursor_of c) ms eof w
          = deferred_Close ?L ?j0 (follow_loop fuel ?L jour h ?w4)"
        by simp
      have "delivered_cursors (delivered ?w4) = map cursor_of [Suc c..<Suc c + 0]"
        using fresh by simp
      moreover have "next_index (pos (state_after S (trace ?w4))) = Suc c + 0" using p4 by simp
      ultimately have "\<exists>k. delivered_cursors (delivered (snd (follow_loop fuel ?L jour h ?w4)))
               = map cursor_of [Suc c..<Suc c + k]"
        by (rule follow_loop_ref_cursors)
      with True have "G (follow_loop fuel ?L jour h ?w4)" by (simp add: G_def)
      with run show ?thesis by blast
    qed
  qed
  then obtain res where "G res"
    and "followJournal fuel ?L h (cursor_of c) ms eof w = deferred_Close ?L ?j0 res"
    by blast
  with closed [of res ?j0] show ?thesis by simp
qed

text \<open>
  C6: for every library, once the connection is open, the matches are replayed and the
  seek to the cursor has succeeded, the worker started with \<open>eof\<close> makes one \<open>Next\<close> and
  then runs the loop; started without \<open>eof\<close> it runs the loop at once. On the reference
  journal, when the entry \<open>c\<close> of the start cursor stays in the journal, the entries the
  worker started with \<open>eof\<close> delivers are \<open>c + 1\<close>, \<open>c + 2\<close>, ... in order, so the first
  one, if any, is newer than the start cursor; without \<open>eof\<close> they are \<open>c\<close>, \<open>c + 1\<close>,
  ..., the entry of the cursor first.
\<close>

theorem followJournal_eof_one_Next:
  "(ret (L (trace w @ [sd_journal_open])) = 0 \<and>
    add_matches L \<lparr>sdJournal = out_handle (L (trace w @ [sd_journal_open])), matches = []\<rparr> ms
      (trace w @ [sd_journal_open]) = (None, jour, trm) \<and>
    ret (L (trm @ [sd_journal_seek_cursor (sdJournal jour) (CString cursor)])) = 0 \<and>
    0 \<le> ret (L (trm @ [sd_journal_seek_cursor (sdJournal jour) (CString cursor),
                         sd_journal_next (sdJournal jour)])) \<longrightarrow>
      followJournal fuel L h cursor ms True w
        = deferred_Close L \<lparr>sdJournal = out_handle (L (trace w @ [sd_journal_open])), matches = []\<rparr>
            (follow_loop fuel L jour h
               (w\<lparr>trace := trm @ [sd_journal_seek_cursor (sdJournal jour) (CString cursor),
                                   sd_journal_next (sdJournal jour)]\<rparr>)) \<and>
      followJournal fuel L h cursor ms False w
        = deferred_Close L \<lparr>sdJournal = out_handle (L (trace w @ [sd_journal_open])), matches = []\<rparr>
            (follow_loop fuel L jour h
               (w\<lparr>trace := trm @ [sd_journal_seek_cursor (sdJournal jour) (CString cursor)]\<rparr>))) \<and>
   (delivered w = [] \<and> (\<forall>t. c < visible S t) \<longrightarrow>
      (\<exists>k. delivered_cursors
              (delivered (snd (followJournal fuel (sd_ref S) h (cursor_of c) ms True w)))
            = map cursor_of [Suc c..<Suc c + k])) \<and>
   (delivered w = [] \<longrightarrow>
      (\<exists>k. delivered_cursors
              (delivered (snd (followJournal fuel (sd_ref S) h (cursor_of c) ms False w)))
            = map cursor_of [c..<c + k])) \<and>
   index_of (cursor_of i) = Some i"
proof -
  have a: "ret (L (trace w @ [sd_journal_open])) = 0 \<and>
    add_matches L \<lparr>sdJournal = out_handle (L (trace w @ [sd_journal_open])), matches = []\<rparr> ms
      (trace w @ [sd_journal_open]) = (None, jour, trm) \<and>
    ret (L (trm @ [sd_journal_seek_cursor (sdJournal jour) (CString cursor)])) = 0 \<and>
    0 \<le> ret (L (trm @ [sd_journal_seek_cursor (sdJournal jour) (CString cursor),
                         sd_journal_next (sdJournal jour)])) \<longrightarrow>
      followJournal fuel L h cursor ms True w
        = deferred_Close L \<lparr>sdJournal = out_handle (L (trace w @ [sd_journal_open])), matches = []\<rparr>
            (follow_loop fuel L jour h
               (w\<lparr>trace := trm @ [sd_journal_seek_cursor (sdJournal jour) (CString cursor),
                                   sd_journal_next (sdJournal jour)]\<rparr>)) \<and>
      followJournal fuel L h cursor ms False w
        = deferred_Close L \<lparr>sdJournal = out_handle (L (trace w @ [sd_journal_open])), matches = []\<rparr>
            (follow_loop fuel L jour h
               (w\<lparr>trace := trm @ [sd_journal_seek_cursor (sdJournal jour) (CString cursor)]\<rparr>))"
    using followJournal_started [of L w ms jour trm cursor fuel h] by blast
  have b: "delivered w = [] \<and> (\<forall>t. c < visible S t) \<longrightarrow>
      (\<exists>k. delivered_cursors
              (delivered (snd (followJournal fuel (sd_ref S) h (cursor_of c) ms True w)))
            = map cursor_of [Suc c..<Suc c + k])"
  proof
    assume h: "delivered w = [] \<and> (\<forall>t. c < visible S t)"
    then have f: "delivered_cursors (delivered w) = []"
      by (simp add: delivered_cursors_def List.map_filter_def)
    from h have "True \<longrightarrow> (\<forall>t. c < visible S t)" by simp
    from followJournal_ref_cursors [OF f this, of fuel h ms]
    show "\<exists>k. delivered_cursors
              (delivered (snd (followJournal fuel (sd_ref S) h (cursor_of c) ms True w)))
            = map cursor_of [Suc c..<Suc c + k]"
      by simp
  qed
  have c: "delivered w = [] \<longrightarrow>
      (\<exists>k. delivered_cursors
              (delivered (snd (followJournal fuel (sd_ref S) h (cursor_of c) ms False w)))
            = map cursor_of [c..<c + k])"
  proof
    assume "delivered w = []"
    then have f: "delivered_cursors (delivered w) = []"
      by (simp add: delivered_cursors_def List.map_filter_def)
    have "False \<longrightarrow> (\<forall>t. c < visible S t)" by simp
    from followJournal_ref_cursors [OF f this, of fuel h ms]
    show "\<exists>k. delivered_cursors
              (delivered (snd (followJournal fuel (sd_ref S) h (cursor_of c) ms False w)))
            = map cursor_of [c..<c + k]"
      by simp
  qed
  from a b c index_of_cursor_of [of i] show ?thesis by blast
qed

theorem followJournal_eof_one_Next_witness:
  "Follow (sd_ref one_more) J1 a_handler at_tail
     = (Inr (spawn a_handler (cursor_of 2) [] True), followed) \<and>
   (\<forall>t. 2 < visible one_more t) \<and>
   (\<exists>k. delivered_cursors (delivered (snd
           (followJournal 6 (sd_ref one_more) a_handler (cursor_of 2) [] True followed_worker)))
         = map cursor_of [3..<3 + k]) \<and>
   delivered_cursors (delivered (snd
      (followJournal 6 (sd_ref one_more) a_handler (cursor_of 2) [] True followed_worker)))
     = [cursor_of 3] \<and>
   delivered_cursors (delivered (snd
      (followJournal 6 (sd_ref one_more) a_handler (cursor_of 2) [] False followed_worker)))
     = [cursor_of 2, cursor_of 3] \<and>
   followJournal 6 (sd_ref one_more) a_handler (cursor_of 2) [] True followed_worker
     = deferred_Close (sd_ref one_more) J1
         (follow_loop 6 (sd_ref one_more) J1 a_handler
            (followed_worker
               \<lparr>trace := followed @ [sd_journal_open, sd_journal_seek_cursor 1 (cursor_of 2),
                                      sd_journal_next 1]\<rparr>))"
proof -
  let ?w = "followed_worker"
  let ?L = "sd_ref one_more"
  note t = followJournal_eof_one_Next
      [where L = ?L and S = one_more and w = ?w and ms = "[]" and jour = J1
         and trm = "followed @ [sd_journal_open]" and cursor = "cursor_of 2" and c = 2 and fuel = 6
         and h = a_handler and i = 2, unfolded CString_cursor_of]
  have start: "Follow ?L J1 a_handler at_tail = (Inr (spawn a_handler (cursor_of 2) [] True), followed)"
    by code_simp
  have vis: "\<forall>t. 2 < visible one_more t" by (simp add: one_more_def)
  have fresh: "delivered ?w = []" by (simp add: followed_worker_def)
  have tw: "trace ?w = followed" by (simp add: followed_worker_def)
  have opened: "?L (followed @ [sd_journal_open]) = answer 0"
    by (simp add: sd_ref_snoc)
  have j: "\<lparr>sdJournal = out_handle (?L (followed @ [sd_journal_open])), matches = []\<rparr> = J1"
    by (simp add: opened answer_def J1_def)
  have h1: "ret (?L (trace ?w @ [sd_journal_open])) = 0"
    by (simp add: tw opened answer_def)
  have h2: "add_matches ?L
       \<lparr>sdJournal = out_handle (?L (trace ?w @ [sd_journal_open])), matches = []\<rparr> []
       (trace ?w @ [sd_journal_open]) = (None, J1, followed @ [sd_journal_open])"
    by (simp add: j tw)
  have h3: "ret (?L ((followed @ [sd_journal_open])
               @ [sd_journal_seek_cursor (sdJournal J1) (cursor_of 2)])) = 0"
    by code_simp
  have h4: "0 \<le> ret (?L ((followed @ [sd_journal_open])
               @ [sd_journal_seek_cursor (sdJournal J1) (cursor_of 2),
                  sd_journal_next (sdJournal J1)]))"
    by code_simp
  from t h1 h2 h3 h4 have "followJournal 6 ?L a_handler (cursor_of 2) [] True ?w
     = deferred_Close ?L
         \<lparr>sdJournal = out_handle (?L (trace ?w @ [sd_journal_open])), matches = []\<rparr>
         (follow_loop 6 ?L J1 a_handler
            (?w\<lparr>trace := (followed @ [sd_journal_open])
                            @ [sd_journal_seek_cursor (sdJournal J1) (cursor_of 2),
                               sd_journal_next (sdJournal J1)]\<rparr>))"
    by blast
  then have run: "followJournal 6 ?L a_handler (cursor_of 2) [] True ?w
     = deferred_Close ?L J1
         (follow_loop 6 ?L J1 a_handler
            (?w\<lparr>trace := followed @ [sd_journal_open, sd_journal_seek_cursor 1 (cursor_of 2),
                                       sd_journal_next 1]\<rparr>))"
    unfolding tw j by (simp add: J1_def)
  from t fresh vis have "\<exists>k. delivered_cursors (delivered (snd
           (followJournal 6 ?L a_handler (cursor_of 2) [] True ?w)))
         = map cursor_of [Suc 2..<Suc 2 + k]"
    by blast
  then have ex: "\<exists>k. delivered_cursors (delivered (snd
           (followJournal 6 ?L a_handler (cursor_of 2) [] True ?w)))
         = map cursor_of [3..<3 + k]"
    by (simp add: numeral_3_eq_3)
  have e1: "delivered_cursors (delivered (snd
      (followJournal 6 ?L a_handler (cursor_of 2) [] True followed_worker)))
     = [cursor_of 3]"
    by code_simp
  have e2: "delivered_cursors (delivered (snd
      (followJournal 6 ?L a_handler (cursor_of 2) [] False followed_worker)))
     = [cursor_of 2, cursor_of 3]"
    by code_simp
  from start vis ex e1 e2 run show ?thesis by blast
qed

end
